theory Spec2Isabelle
  imports Complex_Main "HOL-Library.AList" "HOL-Library.Multiset"
begin

section \<open>JavaScript values\<close>

text \<open>
  The index stores plain JavaScript objects (\<^verbatim>\<open>interface Filter { [key: string]: any }\<close>).
  A number is either \<open>NaN\<close> or a finite value, read as a real; the two infinities are
  left out, since the index itself never does arithmetic (scoring is delegated to
  \<^verbatim>\<open>cosineSimilarity\<close>). An attribute value is a primitive or an array of primitives;
  nested objects are outside the model.
\<close>

datatype jsnum = NaN | Num real

datatype prim = Undefined | Null | Bool bool | Number jsnum | String string

datatype jsval = Prim prim | Array "prim list"

text \<open>
  An object is the list of its own enumerable properties in insertion order, which
  is the order \<^verbatim>\<open>Object.keys\<close> reports and \<^verbatim>\<open>Object.assign\<close> extends. Lookup takes
  the first binding of a key (a JavaScript object has one binding per key).
\<close>

type_synonym Filter = "(string \<times> jsval) list"

definition getProp :: "Filter \<Rightarrow> string \<Rightarrow> jsval" where
  \<comment> \<open>\<^verbatim>\<open>obj[key]\<close>: a missing property reads as \<^verbatim>\<open>undefined\<close> (the functions a plain object
      inherits from \<^verbatim>\<open>Object.prototype\<close> are not values of the model)\<close>
  "getProp obj k = (case map_of obj k of None \<Rightarrow> Prim Undefined | Some v \<Rightarrow> v)"

definition Object_keys :: "Filter \<Rightarrow> string list" where
  "Object_keys obj = map fst obj"

definition has_key :: "string \<Rightarrow> Filter \<Rightarrow> bool" where
  \<comment> \<open>\<^verbatim>\<open>obj.hasOwnProperty(key)\<close>: the key is an own property\<close>
  "has_key k obj = (k \<in> set (map fst obj))"

definition Object_prototype :: "string list" where
  \<comment> \<open>the property names of \<^verbatim>\<open>Object.prototype\<close>, which every plain object inherits\<close>
  "Object_prototype =
     [''constructor'', ''__defineGetter__'', ''__defineSetter__'', ''hasOwnProperty'',
      ''__lookupGetter__'', ''__lookupSetter__'', ''isPrototypeOf'', ''propertyIsEnumerable'',
      ''toString'', ''valueOf'', ''__proto__'', ''toLocaleString'']"

definition key_in :: "string \<Rightarrow> Filter \<Rightarrow> bool" where
  \<comment> \<open>\<^verbatim>\<open>key in obj\<close>: an own property, or one found along the prototype chain\<close>
  "key_in k obj = (has_key k obj \<or> k \<in> set Object_prototype)"

definition Object_assign :: "Filter \<Rightarrow> Filter \<Rightarrow> Filter" where
  \<comment> \<open>\<^verbatim>\<open>Object.assign(target, source)\<close>: \<^verbatim>\<open>target[k] = source[k]\<close> for each key of the source in
      turn; an assignment overwrites in place or appends a new property\<close>
  "Object_assign target source =
     fold (\<lambda>k t. AList.update k (getProp source k) t) (Object_keys source) target"

subsection \<open>Strict equality\<close>

text \<open>
  \<^verbatim>\<open>===\<close> compares primitives by value, with \<open>NaN\<close> unequal to itself, and arrays by
  identity. Values carry no addresses here, so an array is never \<^verbatim>\<open>===\<close> to the
  array of another object.
\<close>

fun prim_strict_eq :: "prim \<Rightarrow> prim \<Rightarrow> bool" where
  "prim_strict_eq (Number a) (Number b) = (a \<noteq> NaN \<and> a = b)"
| "prim_strict_eq a b = (a = b)"

fun strict_eq :: "jsval \<Rightarrow> jsval \<Rightarrow> bool" where
  "strict_eq (Prim a) (Prim b) = prim_strict_eq a b"
| "strict_eq _ _ = False"

subsection \<open>The global \<^verbatim>\<open>isNaN\<close>\<close>

text \<open>
  \<^verbatim>\<open>isNaN(v)\<close> converts \<open>v\<close> to a number first: \<^verbatim>\<open>undefined\<close> becomes \<open>NaN\<close>,
  \<^verbatim>\<open>null\<close> and the booleans become 0 or 1, and a string becomes \<open>NaN\<close> unless it is
  blank or spells a numeric literal (the \<open>StringNumericLiteral\<close> grammar of ECMAScript,
  on ASCII).
\<close>

definition isWhiteSpace :: "char \<Rightarrow> bool" where
  "isWhiteSpace c = (c \<in> set [CHR 0x20, CHR 0x09, CHR 0x0A, CHR 0x0B, CHR 0x0C, CHR 0x0D])"

definition trim :: "string \<Rightarrow> string" where
  "trim s = rev (dropWhile isWhiteSpace (rev (dropWhile isWhiteSpace s)))"

definition isDigitOf :: "string \<Rightarrow> char \<Rightarrow> bool" where
  "isDigitOf alphabet c = (c \<in> set alphabet)"

definition digits :: "string \<Rightarrow> string \<Rightarrow> bool" where
  "digits alphabet s = (s \<noteq> [] \<and> list_all (isDigitOf alphabet) s)"

definition decimal :: string where
  "decimal = ''0123456789''"

definition ExponentPart_opt :: "string \<Rightarrow> bool" where
  "ExponentPart_opt s =
     (case s of
        [] \<Rightarrow> True
      | c # r \<Rightarrow>
          (c = CHR ''e'' \<or> c = CHR ''E'') \<and>
          (case r of
             [] \<Rightarrow> False
           | d # r' \<Rightarrow> if d = CHR ''+'' \<or> d = CHR ''-'' then digits decimal r' else digits decimal r))"

definition StrUnsignedDecimalLiteral :: "string \<Rightarrow> bool" where
  "StrUnsignedDecimalLiteral s =
     (s = ''Infinity'' \<or>
      (let ip = takeWhile (isDigitOf decimal) s; r = dropWhile (isDigitOf decimal) s
       in case r of
            c # r' \<Rightarrow>
              if c = CHR ''.''
              then (let fp = takeWhile (isDigitOf decimal) r'; r'' = dropWhile (isDigitOf decimal) r'
                    in (ip \<noteq> [] \<or> fp \<noteq> []) \<and> ExponentPart_opt r'')
              else ip \<noteq> [] \<and> ExponentPart_opt r
          | [] \<Rightarrow> ip \<noteq> []))"

definition NonDecimalIntegerLiteral :: "string \<Rightarrow> bool" where
  "NonDecimalIntegerLiteral s =
     (case s of
        z # x # r \<Rightarrow>
          z = CHR ''0'' \<and>
          (if x = CHR ''x'' \<or> x = CHR ''X'' then digits ''0123456789abcdefABCDEF'' r
           else if x = CHR ''o'' \<or> x = CHR ''O'' then digits ''01234567'' r
           else if x = CHR ''b'' \<or> x = CHR ''B'' then digits ''01'' r
           else False)
      | _ \<Rightarrow> False)"

definition StringNumericLiteral :: "string \<Rightarrow> bool" where
  "StringNumericLiteral s =
     (let t = trim s
      in t = [] \<or> NonDecimalIntegerLiteral t \<or>
         (case t of
            c # r \<Rightarrow>
              if c = CHR ''+'' \<or> c = CHR ''-'' then StrUnsignedDecimalLiteral r
              else StrUnsignedDecimalLiteral t
          | [] \<Rightarrow> True))"

fun isNaN :: "prim \<Rightarrow> bool" where
  "isNaN Undefined = True"
| "isNaN Null = False"
| "isNaN (Bool b) = False"
| "isNaN (Number n) = (n = NaN)"
| "isNaN (String s) = (\<not> StringNumericLiteral s)"

fun Array_isArray :: "jsval \<Rightarrow> bool" where
  "Array_isArray (Array xs) = True"
| "Array_isArray (Prim p) = False"

fun some_isNaN :: "jsval \<Rightarrow> bool" where
  \<comment> \<open>\<^verbatim>\<open>v.some(isNaN)\<close>, called only after \<^verbatim>\<open>Array.isArray(v)\<close>\<close>
  "some_isNaN (Array xs) = list_ex isNaN xs"
| "some_isNaN (Prim p) = False"

section \<open>The index\<close>

text \<open>
  The fields of \<^verbatim>\<open>class EmbeddingIndex\<close>. A method of the class is a function from
  the state before the call to its outcome and the state after it; a thrown
  \<^verbatim>\<open>Error\<close> is the outcome \<open>Inl\<close>, tagged by its message.
\<close>

record EmbeddingIndex =
  objects :: "Filter list"
  keys :: "string list"
  indexedDBDataCache :: "Filter list option"
  preloadedDBName :: "string option"
  preloadedObjectStoreName :: "string option"

datatype error =
    EmbeddingInvalid      \<comment> \<open>\<^verbatim>\<open>Object must have an embedding property of type number[]\<close>\<close>
  | SchemaMismatch        \<comment> \<open>\<^verbatim>\<open>Object must have the same properties as the initial objects\<close>\<close>
  | VectorNotFound        \<comment> \<open>\<^verbatim>\<open>Vector not found\<close>\<close>
  | IndexedDBNotSupported \<comment> \<open>\<^verbatim>\<open>IndexedDB is not supported\<close>\<close>
  | OpenFailed            \<comment> \<open>\<^verbatim>\<open>Failed to open database for preloading\<close>\<close>
  | ObjectStoreNotFound   \<comment> \<open>\<^verbatim>\<open>Object store '...' not found.\<close>\<close>
  | FetchFailed           \<comment> \<open>\<^verbatim>\<open>Failed to fetch data during preload\<close>\<close>
  | CacheStillNull        \<comment> \<open>\<^verbatim>\<open>Preload completed but cache is still null.\<close>\<close>

text \<open>The specification's names for the two kinds of error the record store raises.\<close>

definition is_ValidationError :: "error \<Rightarrow> bool" where
  "is_ValidationError e = (e = EmbeddingInvalid \<or> e = SchemaMismatch)"

definition is_NotFoundError :: "error \<Rightarrow> bool" where
  "is_NotFoundError e = (e = VectorNotFound)"

type_synonym 'a outcome = "error + 'a"

subsection \<open>Matching\<close>

definition matches :: "Filter \<Rightarrow> Filter \<Rightarrow> bool" where
  \<comment> \<open>\<^verbatim>\<open>Object.keys(filter).every((key) => object[key] === filter[key])\<close>\<close>
  "matches flt object =
     list_all (\<lambda>key. strict_eq (getProp object key) (getProp flt key)) (Object_keys flt)"

fun findIndex :: "('a \<Rightarrow> bool) \<Rightarrow> 'a list \<Rightarrow> int" where
  \<comment> \<open>\<^verbatim>\<open>Array.prototype.findIndex\<close>: the first position that satisfies the predicate, or -1\<close>
  "findIndex P [] = -1"
| "findIndex P (x # xs) =
     (if P x then 0 else (let i = findIndex P xs in if i = -1 then -1 else i + 1))"

definition findVectorIndex :: "Filter \<Rightarrow> EmbeddingIndex \<Rightarrow> int" where
  "findVectorIndex flt s = findIndex (matches flt) (objects s)"

subsection \<open>Adding\<close>

definition validateAndAdd :: "Filter \<Rightarrow> EmbeddingIndex \<Rightarrow> unit outcome \<times> EmbeddingIndex" where
  "validateAndAdd obj s =
     (if \<not> Array_isArray (getProp obj ''embedding'') \<or> some_isNaN (getProp obj ''embedding'')
      then (Inl EmbeddingInvalid, s)
      else if length (keys s) = 0
      then (Inr (), s\<lparr>keys := Object_keys obj, objects := objects s @ [obj]\<rparr>)
      else if \<not> list_all (\<lambda>key. key_in key obj) (keys s)
      then (Inl SchemaMismatch, s)
      else (Inr (), s\<lparr>objects := objects s @ [obj]\<rparr>))"

definition add :: "Filter \<Rightarrow> EmbeddingIndex \<Rightarrow> unit outcome \<times> EmbeddingIndex" where
  "add obj s = validateAndAdd obj s"

subsection \<open>Updating, removing, reading\<close>

definition update :: "Filter \<Rightarrow> Filter \<Rightarrow> EmbeddingIndex \<Rightarrow> unit outcome \<times> EmbeddingIndex" where
  "update flt vector s =
     (let index = findVectorIndex flt s
      in if index = -1 then (Inl VectorNotFound, s)
         else
           (case (if has_key ''embedding'' vector then validateAndAdd vector s else (Inr (), s)) of
              (Inl e, s') \<Rightarrow> (Inl e, s')
            | (Inr _, s') \<Rightarrow>
                (Inr (),
                 s'\<lparr>objects :=
                      (objects s')[nat index := Object_assign (objects s' ! nat index) vector]\<rparr>)))"

definition splice1 :: "int \<Rightarrow> 'a list \<Rightarrow> 'a list" where
  \<comment> \<open>\<^verbatim>\<open>xs.splice(index, 1)\<close> for an index that \<^verbatim>\<open>findIndex\<close> returned, so \<open>0 \<le> index < length xs\<close>\<close>
  "splice1 index xs = take (nat index) xs @ drop (nat index + 1) xs"

definition remove_ei :: "Filter \<Rightarrow> EmbeddingIndex \<Rightarrow> unit outcome \<times> EmbeddingIndex" where
  "remove_ei flt s =
     (let index = findVectorIndex flt s
      in if index = -1 then (Inl VectorNotFound, s)
         else (Inr (), s\<lparr>objects := splice1 index (objects s)\<rparr>))"

definition removeBatch :: "Filter list \<Rightarrow> EmbeddingIndex \<Rightarrow> unit outcome \<times> EmbeddingIndex" where
  "removeBatch filters s =
     (Inr (),
      fold (\<lambda>flt t.
              let index = findVectorIndex flt t
              in if index \<noteq> -1 then t\<lparr>objects := splice1 index (objects t)\<rparr> else t)
           filters s)"

definition get :: "Filter \<Rightarrow> EmbeddingIndex \<Rightarrow> Filter option outcome \<times> EmbeddingIndex" where
  \<comment> \<open>\<^verbatim>\<open>this.objects[-1]\<close> is \<^verbatim>\<open>undefined\<close>, which \<^verbatim>\<open>vector || null\<close> turns into \<^verbatim>\<open>null\<close> (\<open>None\<close>)\<close>
  "get flt s =
     (let index = findVectorIndex flt s
      in (Inr (if 0 \<le> index \<and> index < int (length (objects s))
               then Some (objects s ! nat index) else None), s))"

definition size_ei :: "EmbeddingIndex \<Rightarrow> nat outcome \<times> EmbeddingIndex" where
  "size_ei s = (Inr (length (objects s)), s)"

definition clear :: "EmbeddingIndex \<Rightarrow> unit outcome \<times> EmbeddingIndex" where
  "clear s = (Inr (), s\<lparr>objects := []\<rparr>)"

subsection \<open>Construction\<close>

fun forEach :: "('a \<Rightarrow> 's \<Rightarrow> unit outcome \<times> 's) \<Rightarrow> 'a list \<Rightarrow> 's \<Rightarrow> unit outcome \<times> 's" where
  \<comment> \<open>\<^verbatim>\<open>xs.forEach(f)\<close> for a callback that may throw: the first throw ends the loop\<close>
  "forEach f [] s = (Inr (), s)"
| "forEach f (x # xs) s =
     (case f x s of (Inl e, s') \<Rightarrow> (Inl e, s') | (Inr _, s') \<Rightarrow> forEach f xs s')"

definition initialize :: "Filter list option \<Rightarrow> EmbeddingIndex \<Rightarrow> unit outcome \<times> EmbeddingIndex" where
  \<comment> \<open>the block the constructor runs twice: reset, add every initial object, take the keys of the first\<close>
  "initialize initialObjects s =
     (let s1 = s\<lparr>objects := [], keys := []\<rparr>
      in case initialObjects of
           None \<Rightarrow> (Inr (), s1)
         | Some xs \<Rightarrow>
             if length xs > 0
             then (case forEach validateAndAdd xs s1 of
                     (Inl e, s2) \<Rightarrow> (Inl e, s2)
                   | (Inr _, s2) \<Rightarrow> (Inr (), s2\<lparr>keys := Object_keys (hd xs)\<rparr>))
             else (Inr (), s1))"

definition constructor :: "Filter list option \<Rightarrow> EmbeddingIndex outcome" where
  \<comment> \<open>the field initialisers run first; a throw leaves no index behind\<close>
  "constructor initialObjects =
     (let s0 = \<lparr>objects = [], keys = [], indexedDBDataCache = None,
                preloadedDBName = None, preloadedObjectStoreName = None\<rparr>
      in case initialize initialObjects s0 of
           (Inl e, _) \<Rightarrow> Inl e
         | (Inr _, s1) \<Rightarrow>
             (case initialize initialObjects s1 of
                (Inl e, _) \<Rightarrow> Inl e
              | (Inr _, s2) \<Rightarrow>
                  Inr (s2\<lparr>indexedDBDataCache := None, preloadedDBName := None,
                           preloadedObjectStoreName := None\<rparr>)))"

section \<open>The priority queue\<close>

text \<open>
  \<^verbatim>\<open>FastPriorityQueue\<close> (the npm package \<^verbatim>\<open>fastpriorityqueue\<close>) is a binary heap in an
  array, ordered by the comparator given at construction. The queue is modelled by
  its live slots \<^verbatim>\<open>array[0 .. size-1]\<close>; what the JavaScript array holds beyond
  \<^verbatim>\<open>size\<close> is never read.
\<close>

function add_loop :: "('a \<Rightarrow> 'a \<Rightarrow> bool) \<Rightarrow> 'a \<Rightarrow> 'a list \<Rightarrow> nat \<Rightarrow> 'a list" where
  \<comment> \<open>the \<^verbatim>\<open>while (i > 0)\<close> loop of \<^verbatim>\<open>add\<close>, with \<open>p = (i - 1) >> 1\<close>\<close>
  "add_loop compare myval array i =
     (if i > 0
      then (let p = (i - 1) div 2; ap = array ! p
            in if \<not> compare myval ap then array[i := myval]
               else add_loop compare myval (array[i := ap]) p)
      else array[i := myval])"
  by pat_completeness auto
termination
  by (relation "measure (\<lambda>(compare, myval, array, i). i)") auto

declare add_loop.simps [simp del]

definition fpq_add :: "('a \<Rightarrow> 'a \<Rightarrow> bool) \<Rightarrow> 'a \<Rightarrow> 'a list \<Rightarrow> 'a list" where
  "fpq_add compare myval array = add_loop compare myval (array @ [myval]) (length array)"

function percolateDown_loop :: "('a \<Rightarrow> 'a \<Rightarrow> bool) \<Rightarrow> 'a \<Rightarrow> 'a list \<Rightarrow> nat \<Rightarrow> 'a list" where
  \<comment> \<open>the \<^verbatim>\<open>while (i < hsize)\<close> loop of \<^verbatim>\<open>_percolateDown\<close>, with \<open>hsize = size >>> 1\<close>\<close>
  "percolateDown_loop compare ai array i =
     (if i < length array div 2
      then (let l = 2 * i + 1; r = l + 1;
                l' = (if r < length array \<and> compare (array ! r) (array ! l) then r else l);
                bestc = array ! l'
            in if \<not> compare bestc ai then array[i := ai]
               else percolateDown_loop compare ai (array[i := bestc]) l')
      else array[i := ai])"
  by pat_completeness auto
termination
  by (relation "measure (\<lambda>(compare, ai, array, i). length array - i)") auto

declare percolateDown_loop.simps [simp del]

definition percolateDown :: "('a \<Rightarrow> 'a \<Rightarrow> bool) \<Rightarrow> 'a list \<Rightarrow> nat \<Rightarrow> 'a list" where
  "percolateDown compare array i = percolateDown_loop compare (array ! i) array i"

definition peek :: "'a list \<Rightarrow> 'a option" where
  "peek array = (if length array = 0 then None else Some (array ! 0))"

definition poll :: "('a \<Rightarrow> 'a \<Rightarrow> bool) \<Rightarrow> 'a list \<Rightarrow> 'a option \<times> 'a list" where
  \<comment> \<open>\<^verbatim>\<open>this.array[0] = this.array[--this.size]\<close> moves the last live slot to the root\<close>
  "poll compare array =
     (if length array = 0 then (None, array)
      else (let ans = array ! 0
            in if length array > 1
               then (Some ans, percolateDown compare ((butlast array)[0 := last array]) 0)
               else (Some ans, butlast array)))"

section \<open>Searching\<close>

subsection \<open>Scores\<close>

text \<open>\<^verbatim>\<open><\<close> and \<^verbatim>\<open>>\<close> on numbers: every comparison with \<open>NaN\<close> is false.\<close>

fun js_lt :: "jsnum \<Rightarrow> jsnum \<Rightarrow> bool" where
  "js_lt (Num a) (Num b) = (a < b)"
| "js_lt _ _ = False"

definition js_gt :: "jsnum \<Rightarrow> jsnum \<Rightarrow> bool" where
  "js_gt a b = js_lt b a"

record SearchResult =
  similarity :: jsnum
  object :: Filter

definition compare_sr :: "SearchResult \<Rightarrow> SearchResult \<Rightarrow> bool" where
  \<comment> \<open>\<^verbatim>\<open>(a, b) => a.similarity < b.similarity\<close>\<close>
  "compare_sr a b = js_lt (similarity a) (similarity b)"

text \<open>
  \<^verbatim>\<open>cosineSimilarity\<close> is imported from \<^verbatim>\<open>./utils\<close>; every search function below takes
  it as its first argument \<open>score\<close>, applied to the query and to the \<^verbatim>\<open>embedding\<close>
  property of a record.
\<close>

type_synonym scorer = "jsnum list \<Rightarrow> jsval \<Rightarrow> jsnum"

subsection \<open>Top-K selection\<close>

definition offer :: "int \<Rightarrow> SearchResult \<Rightarrow> SearchResult list \<Rightarrow> SearchResult list" where
  \<comment> \<open>the queue operations both search loops perform for one scored candidate\<close>
  "offer topK c queue =
     (if int (length queue) < topK then fpq_add compare_sr c queue
      else (case peek queue of
              Some m \<Rightarrow>
                if js_gt (similarity c) (similarity m)
                then fpq_add compare_sr c (snd (poll compare_sr queue))
                else queue
            | None \<Rightarrow> queue))"

definition local_step :: "scorer \<Rightarrow> jsnum list \<Rightarrow> int \<Rightarrow> Filter \<Rightarrow> Filter \<Rightarrow> SearchResult list \<Rightarrow> SearchResult list" where
  \<comment> \<open>the body of \<^verbatim>\<open>for (const obj of this.objects)\<close> in \<^verbatim>\<open>search\<close>\<close>
  "local_step score queryEmbedding topK flt obj queue =
     (if matches flt obj
      then offer topK \<lparr>similarity = score queryEmbedding (getProp obj ''embedding''), object = obj\<rparr> queue
      else queue)"

definition stored_step :: "scorer \<Rightarrow> jsnum list \<Rightarrow> int \<Rightarrow> Filter \<Rightarrow> Filter \<Rightarrow> SearchResult list \<Rightarrow> SearchResult list" where
  \<comment> \<open>the body of \<^verbatim>\<open>for (const record of objectsToSearch)\<close> in \<^verbatim>\<open>loadAndSearchFromIndexedDB\<close>\<close>
  "stored_step score queryEmbedding topK flt record queue =
     (if matches flt record
      then (let embedding = getProp record ''embedding''
            in if \<not> Array_isArray embedding then queue
               else offer topK \<lparr>similarity = score queryEmbedding embedding, object = record\<rparr> queue)
      else queue)"

function drain :: "('a \<Rightarrow> 'a \<Rightarrow> bool) \<Rightarrow> 'a list \<Rightarrow> 'a list" where
  \<comment> \<open>\<^verbatim>\<open>while (!queue.isEmpty()) results.push(queue.poll())\<close>\<close>
  "drain compare array =
     (if length array = 0 then []
      else (case poll compare array of
              (Some x, array') \<Rightarrow> x # drain compare array'
            | (None, array') \<Rightarrow> []))"
  by pat_completeness auto
termination
proof (relation "measure (\<lambda>(compare, array). length array)")
  show "wf (measure (\<lambda>(compare :: 'a \<Rightarrow> 'a \<Rightarrow> bool, array). length array))"
    by simp
next
  fix compare :: "'a \<Rightarrow> 'a \<Rightarrow> bool" and array :: "'a list" and x y x2
  assume nonempty: "\<not> length array = 0" and polled: "(x, y) = poll compare array"
  have len: "length (percolateDown_loop compare ai a i) = length a" for ai a i
    by (induction compare ai a i rule: percolateDown_loop.induct)
       (subst percolateDown_loop.simps, simp add: Let_def)
  from nonempty polled have "length y < length array"
    by (auto simp: poll_def percolateDown_def len Let_def split: if_splits)
  then show "((compare, y), compare, array) \<in> measure (\<lambda>(compare, array). length array)"
    by simp
qed

declare drain.simps [simp del]

definition candidates :: "scorer \<Rightarrow> jsnum list \<Rightarrow> Filter \<Rightarrow> Filter list \<Rightarrow> SearchResult list" where
  \<comment> \<open>the matching records in storage order, each with its score: what the loop offers\<close>
  "candidates score q flt objs =
     map (\<lambda>obj. \<lparr>similarity = score q (getProp obj ''embedding''), object = obj\<rparr>)
       (filter (matches flt) objs)"

definition search_local :: "scorer \<Rightarrow> jsnum list \<Rightarrow> int \<Rightarrow> Filter \<Rightarrow> Filter list \<Rightarrow> SearchResult list" where
  \<comment> \<open>the \<^verbatim>\<open>else\<close> branch of \<^verbatim>\<open>search\<close>: fill the queue, drain it, reverse\<close>
  "search_local score queryEmbedding topK flt objs =
     rev (drain compare_sr (fold (local_step score queryEmbedding topK flt) objs []))"

definition search_stored :: "scorer \<Rightarrow> jsnum list \<Rightarrow> int \<Rightarrow> Filter \<Rightarrow> Filter list \<Rightarrow> SearchResult list" where
  \<comment> \<open>the second half of \<^verbatim>\<open>loadAndSearchFromIndexedDB\<close>, over \<^verbatim>\<open>objectsToSearch\<close>\<close>
  "search_stored score queryEmbedding topK flt objectsToSearch =
     rev (drain compare_sr (fold (stored_step score queryEmbedding topK flt) objectsToSearch []))"

section \<open>The IndexedDB cache\<close>

text \<open>
  The browser's \<^verbatim>\<open>indexedDB\<close>, as far as \<^verbatim>\<open>preloadIndexedDB\<close> uses it: opening a database
  by name succeeds or fires \<^verbatim>\<open>onerror\<close> (\<open>None\<close>); an opened database lists its object
  stores, and \<^verbatim>\<open>getAll\<close> on a store delivers its records or fires \<^verbatim>\<open>onerror\<close> (\<open>None\<close>).
  The field \<open>calls\<close> records the requests issued so far, oldest first.
\<close>

record IDBDatabase =
  objectStoreNames :: "string list"
  getAll :: "string \<Rightarrow> Filter list option"

datatype idb_call = Open string | GetAll string string

record IndexedDB =
  databases :: "string \<Rightarrow> IDBDatabase option"
  calls :: "idb_call list"

definition default_arg :: "'a \<Rightarrow> 'a option \<Rightarrow> 'a" where
  \<comment> \<open>a parameter with a default value: \<^verbatim>\<open>undefined\<close> (\<open>None\<close>) selects the default\<close>
  "default_arg d a = (case a of None \<Rightarrow> d | Some v \<Rightarrow> v)"

definition clearIndexedDBCache :: "EmbeddingIndex \<Rightarrow> EmbeddingIndex" where
  "clearIndexedDBCache s =
     (if indexedDBDataCache s \<noteq> None
      then s\<lparr>indexedDBDataCache := None, preloadedDBName := None, preloadedObjectStoreName := None\<rparr>
      else s)"

definition fetchObjects :: "string \<Rightarrow> string \<Rightarrow> IndexedDB \<Rightarrow> Filter list outcome \<times> IndexedDB" where
  \<comment> \<open>the promise awaited inside \<^verbatim>\<open>preloadIndexedDB\<close>: \<open>Inl\<close> is a rejection\<close>
  "fetchObjects DBname objectStoreName idb =
     (let idb1 = idb\<lparr>calls := calls idb @ [Open DBname]\<rparr>
      in case databases idb DBname of
           None \<Rightarrow> (Inl OpenFailed, idb1)
         | Some db \<Rightarrow>
             if objectStoreName \<notin> set (objectStoreNames db) then (Inl ObjectStoreNotFound, idb1)
             else (let idb2 = idb1\<lparr>calls := calls idb1 @ [GetAll DBname objectStoreName]\<rparr>
                   in case getAll db objectStoreName of
                        None \<Rightarrow> (Inl FetchFailed, idb2)
                      | Some fetchedObjects \<Rightarrow> (Inr fetchedObjects, idb2)))"

definition preloadIndexedDB ::
  "string option \<Rightarrow> string option \<Rightarrow> IndexedDB \<Rightarrow> EmbeddingIndex \<Rightarrow> unit outcome \<times> EmbeddingIndex \<times> IndexedDB" where
  \<comment> \<open>the \<^verbatim>\<open>catch\<close> block clears the cache and does not rethrow (\<^verbatim>\<open>// throw error;\<close>)\<close>
  "preloadIndexedDB DBname_arg objectStoreName_arg idb s =
     (let DBname = default_arg ''clientVectorDB'' DBname_arg;
          objectStoreName = default_arg ''ClientEmbeddingStore'' objectStoreName_arg;
          s1 = clearIndexedDBCache s
      in case fetchObjects DBname objectStoreName idb of
           (Inr fetchedObjects, idb') \<Rightarrow>
             (Inr (),
              s1\<lparr>indexedDBDataCache := Some fetchedObjects, preloadedDBName := Some DBname,
                  preloadedObjectStoreName := Some objectStoreName\<rparr>,
              idb')
         | (Inl error, idb') \<Rightarrow> (Inr (), clearIndexedDBCache s1, idb'))"

definition isCacheValid :: "string \<Rightarrow> string \<Rightarrow> EmbeddingIndex \<Rightarrow> bool" where
  "isCacheValid DBname objectStoreName s =
     (indexedDBDataCache s \<noteq> None \<and> preloadedDBName s = Some DBname \<and>
      preloadedObjectStoreName s = Some objectStoreName)"

definition preloadForSearch ::
  "string \<Rightarrow> string \<Rightarrow> IndexedDB \<Rightarrow> EmbeddingIndex \<Rightarrow> Filter list outcome \<times> EmbeddingIndex \<times> IndexedDB" where
  \<comment> \<open>the \<^verbatim>\<open>try\<close> block of \<^verbatim>\<open>loadAndSearchFromIndexedDB\<close>\<close>
  "preloadForSearch DBname objectStoreName idb s =
     (case preloadIndexedDB (Some DBname) (Some objectStoreName) idb s of
        (Inl e, s', idb') \<Rightarrow> (Inl e, s', idb')
      | (Inr _, s', idb') \<Rightarrow>
          (case indexedDBDataCache s' of
             None \<Rightarrow> (Inl CacheStillNull, s', idb')
           | Some cache \<Rightarrow> (Inr cache, s', idb')))"

definition loadAndSearchFromIndexedDB ::
  "scorer \<Rightarrow> string option \<Rightarrow> string option \<Rightarrow> jsnum list \<Rightarrow> int \<Rightarrow> Filter \<Rightarrow> IndexedDB \<Rightarrow> EmbeddingIndex
     \<Rightarrow> SearchResult list outcome \<times> EmbeddingIndex \<times> IndexedDB" where
  "loadAndSearchFromIndexedDB score DBname_arg objectStoreName_arg queryEmbedding topK flt idb s =
     (let DBname = default_arg ''clientVectorDB'' DBname_arg;
          objectStoreName = default_arg ''ClientEmbeddingStore'' objectStoreName_arg
      in if \<not> isCacheValid DBname objectStoreName s
         then (case preloadForSearch DBname objectStoreName idb s of
                 (Inl error, s', idb') \<Rightarrow> (Inr [], s', idb')
               | (Inr objectsToSearch, s', idb') \<Rightarrow>
                   (Inr (search_stored score queryEmbedding topK flt objectsToSearch), s', idb'))
         else (case indexedDBDataCache s of
                 Some objectsToSearch \<Rightarrow>
                   (Inr (search_stored score queryEmbedding topK flt objectsToSearch), s, idb)
               | None \<Rightarrow> (Inr (search_stored score queryEmbedding topK flt []), s, idb)))"

subsection \<open>The entry point\<close>

datatype StorageOptions = UseIndexedDB | UseLocalStorage | UseNone

record StorageNames =
  indexedDBName :: string
  indexedDBObjectStoreName :: string

text \<open>
  \<^verbatim>\<open>interface SearchOptions\<close>: every field is optional. \<^verbatim>\<open>topK\<close> is a count, modelled
  as an integer; \<^verbatim>\<open>x || d\<close> selects \<open>d\<close> when \<open>x\<close> is \<^verbatim>\<open>undefined\<close>, 0 or the empty string.
\<close>

record SearchOptions =
  topK :: "int option"
  filter_opt :: "Filter option"
  useStorage :: "StorageOptions option"
  storageOptions :: "StorageNames option"

definition DEFAULT_TOP_K :: int where
  "DEFAULT_TOP_K = 3"

definition or_number :: "int option \<Rightarrow> int \<Rightarrow> int" where
  "or_number x d = (case x of None \<Rightarrow> d | Some n \<Rightarrow> if n = 0 then d else n)"

definition or_string :: "string option \<Rightarrow> string \<Rightarrow> string" where
  "or_string x d = (case x of None \<Rightarrow> d | Some n \<Rightarrow> if n = [] then d else n)"

definition default_options :: SearchOptions where
  "default_options =
     \<lparr>topK = Some 3, filter_opt = None, useStorage = Some UseNone,
      storageOptions = Some \<lparr>indexedDBName = ''clientVectorDB'',
                             indexedDBObjectStoreName = ''ClientEmbeddingStore''\<rparr>\<rparr>"

definition search ::
  "scorer \<Rightarrow> jsnum list \<Rightarrow> SearchOptions option \<Rightarrow> IndexedDB option \<Rightarrow> EmbeddingIndex
     \<Rightarrow> SearchResult list outcome \<times> EmbeddingIndex \<times> IndexedDB option" where
  \<comment> \<open>the global \<^verbatim>\<open>indexedDB\<close> is \<open>None\<close> where \<^verbatim>\<open>typeof indexedDB === 'undefined'\<close>\<close>
  "search score queryEmbedding options_arg indexedDB s =
     (let options = default_arg default_options options_arg;
          topK = or_number (topK options) DEFAULT_TOP_K;
          flt = default_arg [] (filter_opt options);
          useStorage = default_arg UseNone (useStorage options)
      in if useStorage = UseIndexedDB
         then (let DBname = or_string (map_option indexedDBName (storageOptions options)) ''clientVectorDB'';
                   objectStoreName =
                     or_string (map_option indexedDBObjectStoreName (storageOptions options))
                       ''ClientEmbeddingStore''
               in case indexedDB of
                    None \<Rightarrow> (Inl IndexedDBNotSupported, s, indexedDB)
                  | Some idb \<Rightarrow>
                      (case loadAndSearchFromIndexedDB score (Some DBname) (Some objectStoreName)
                              queryEmbedding topK flt idb s of
                         (r, s', idb') \<Rightarrow> (r, s', Some idb')))
         else (Inr (search_local score queryEmbedding topK flt (objects s)), s, indexedDB))"

section \<open>Cosine similarity\<close>

text \<open>
  Modelled from the spec: \<^verbatim>\<open>cosineSimilarity\<close> lives in \<^verbatim>\<open>./utils\<close>, which is not among the
  sources. The specification (4.2) requires two numeric sequences of equal length,
  computes \<open>dot(a,b) / (norm(a) * norm(b))\<close> and gives \<open>NaN\<close> when either norm is zero.
  Arguments outside that requirement (an element that is \<open>NaN\<close> or not a number,
  different lengths) are given \<open>NaN\<close> here. It serves as the concrete scorer in the
  examples; the theorems hold for every scorer.
\<close>

fun finite_numbers :: "jsnum list \<Rightarrow> real list option" where
  "finite_numbers [] = Some []"
| "finite_numbers (NaN # ns) = None"
| "finite_numbers (Num x # ns) = map_option ((#) x) (finite_numbers ns)"

fun number_elements :: "prim list \<Rightarrow> jsnum list option" where
  "number_elements [] = Some []"
| "number_elements (Number n # ps) = map_option ((#) n) (number_elements ps)"
| "number_elements (p # ps) = None"

definition dot :: "real list \<Rightarrow> real list \<Rightarrow> real" where
  "dot a b = sum_list (map (\<lambda>(x, y). x * y) (zip a b))"

definition norm_vec :: "real list \<Rightarrow> real" where
  "norm_vec a = sqrt (dot a a)"

definition cosine :: "real list \<Rightarrow> real list \<Rightarrow> jsnum" where
  "cosine a b =
     (if length a \<noteq> length b \<or> norm_vec a = 0 \<or> norm_vec b = 0 then NaN
      else Num (dot a b / (norm_vec a * norm_vec b)))"

definition cosineSimilarity :: scorer where
  "cosineSimilarity a e =
     (case e of
        Prim p \<Rightarrow> NaN
      | Array ps \<Rightarrow>
          (case (finite_numbers a, Option.bind (number_elements ps) finite_numbers) of
             (Some x, Some y) \<Rightarrow> cosine x y
           | _ \<Rightarrow> NaN))"

section \<open>Sequences of calls\<close>

text \<open>The mutating methods of the record store, as data, and a caller that issues them in turn.\<close>

datatype call =
    Add Filter
  | Update Filter Filter
  | Remove Filter
  | RemoveBatch "Filter list"
  | Clear

fun perform :: "call \<Rightarrow> EmbeddingIndex \<Rightarrow> unit outcome \<times> EmbeddingIndex" where
  "perform (Add obj) s = add obj s"
| "perform (Update flt vector) s = update flt vector s"
| "perform (Remove flt) s = remove_ei flt s"
| "perform (RemoveBatch filters) s = removeBatch filters s"
| "perform Clear s = clear s"

section \<open>Notions used in the statements\<close>

definition new_index :: EmbeddingIndex where
  \<comment> \<open>the index that \<^verbatim>\<open>new EmbeddingIndex()\<close> returns\<close>
  "new_index = \<lparr>objects = [], keys = [], indexedDBDataCache = None,
                preloadedDBName = None, preloadedObjectStoreName = None\<rparr>"

definition numeric_sequence :: "jsval \<Rightarrow> bool" where
  \<comment> \<open>an array all of whose elements are numbers other than \<open>NaN\<close>\<close>
  "numeric_sequence v =
     (case v of
        Array ps \<Rightarrow> list_all (\<lambda>p. case p of Number n \<Rightarrow> n \<noteq> NaN | _ \<Rightarrow> False) ps
      | Prim p \<Rightarrow> False)"

definition rec1 :: Filter where
  \<comment> \<open>\<^verbatim>\<open>{id: 1, embedding: [1]}\<close>\<close>
  "rec1 = [(''id'', Prim (Number (Num 1))), (''embedding'', Array [Number (Num 1)])]"

definition numbers_only :: "jsval \<Rightarrow> bool" where
  \<comment> \<open>if the value is an array, every element of it is a number\<close>
  "numbers_only v =
     (case v of
        Array ps \<Rightarrow> list_all (\<lambda>p. case p of Number n \<Rightarrow> True | _ \<Rightarrow> False) ps
      | Prim p \<Rightarrow> True)"

definition contains_NaN :: "jsval \<Rightarrow> bool" where
  \<comment> \<open>an array with the number \<open>NaN\<close> among its elements\<close>
  "contains_NaN v = (case v of Array ps \<Rightarrow> Number NaN \<in> set ps | Prim p \<Rightarrow> False)"

definition typed_record :: "Filter \<Rightarrow> bool" where
  \<comment> \<open>a record whose \<^verbatim>\<open>embedding\<close>, if it is an array, holds only numbers\<close>
  "typed_record obj = numbers_only (getProp obj ''embedding'')"

fun typed_call :: "call \<Rightarrow> bool" where
  \<comment> \<open>the record or patch that a call passes in is typed\<close>
  "typed_call (Add obj) = typed_record obj"
| "typed_call (Update flt vector) = typed_record vector"
| "typed_call c = True"

definition typed_records :: "Filter list option \<Rightarrow> bool" where
  "typed_records initialObjects =
     (case initialObjects of None \<Rightarrow> True | Some xs \<Rightarrow> list_all typed_record xs)"

definition record_ok :: "string list \<Rightarrow> Filter \<Rightarrow> bool" where
  \<comment> \<open>every attribute of the schema is found in the record, and its \<^verbatim>\<open>embedding\<close> is an array
      of numbers other than \<open>NaN\<close>\<close>
  "record_ok ks r =
     (list_all (\<lambda>k. key_in k r) ks \<and> numeric_sequence (getProp r ''embedding''))"

definition store_inv :: "EmbeddingIndex \<Rightarrow> bool" where
  \<comment> \<open>what the record store keeps true of its records\<close>
  "store_inv s =
     ((length (keys s) = 0 \<longrightarrow> objects s = []) \<and> list_all (record_ok (keys s)) (objects s))"

definition rec3 :: Filter where
  \<comment> \<open>\<^verbatim>\<open>{id: 3, embedding: [1], tag: 'x'}\<close>\<close>
  "rec3 = [(''id'', Prim (Number (Num 3))), (''embedding'', Array [Number (Num 1)]),
           (''tag'', Prim (String ''x''))]"

definition cache_cleared :: "EmbeddingIndex \<Rightarrow> bool" where
  \<comment> \<open>no snapshot and no identity tag\<close>
  "cache_cleared s =
     (indexedDBDataCache s = None \<and> preloadedDBName s = None \<and> preloadedObjectStoreName s = None)"

definition cache_inv :: "EmbeddingIndex \<Rightarrow> bool" where
  \<comment> \<open>the three cache fields are set together and cleared together\<close>
  "cache_inv s = (indexedDBDataCache s = None \<longrightarrow> cache_cleared s)"

fun is_Open :: "idb_call \<Rightarrow> bool" where
  "is_Open (Open n) = True"
| "is_Open (GetAll n m) = False"

definition fetch_count :: "IndexedDB \<Rightarrow> nat" where
  \<comment> \<open>the fetches attempted so far: each one opens the database once\<close>
  "fetch_count idb = length (filter is_Open (calls idb))"

definition no_database :: IndexedDB where
  \<comment> \<open>an \<^verbatim>\<open>indexedDB\<close> in which no database can be opened\<close>
  "no_database = \<lparr>databases = (\<lambda>name. None), calls = []\<rparr>"

definition unreadable_store :: IndexedDB where
  \<comment> \<open>every database has the store \<^verbatim>\<open>ClientEmbeddingStore\<close>, and reading it fails\<close>
  "unreadable_store =
     \<lparr>databases = (\<lambda>name. Some \<lparr>objectStoreNames = [''ClientEmbeddingStore''],
                                  getAll = (\<lambda>store. None)\<rparr>),
      calls = []\<rparr>"

definition one_record_store :: IndexedDB where
  \<comment> \<open>every database has the store \<^verbatim>\<open>ClientEmbeddingStore\<close>, holding \<open>rec1\<close>\<close>
  "one_record_store =
     \<lparr>databases = (\<lambda>name. Some \<lparr>objectStoreNames = [''ClientEmbeddingStore''],
                                  getAll = (\<lambda>store. Some [rec1])\<rparr>),
      calls = []\<rparr>"

subsection \<open>Heap order\<close>

definition ordered_on :: "'a set \<Rightarrow> ('a \<Rightarrow> 'a \<Rightarrow> bool) \<Rightarrow> ('a \<Rightarrow> real) \<Rightarrow> bool" where
  \<comment> \<open>on the set \<open>S\<close> the comparator is the strict order of a real-valued key\<close>
  "ordered_on S compare key = (\<forall>x \<in> S. \<forall>y \<in> S. compare x y = (key x < key y))"

definition is_heap :: "('a \<Rightarrow> real) \<Rightarrow> 'a list \<Rightarrow> bool" where
  \<comment> \<open>every slot holds a key no smaller than its parent's, at index \<open>(j - 1) div 2\<close>\<close>
  "is_heap key a = (\<forall>j. 0 < j \<and> j < length a \<longrightarrow> key (a ! ((j - 1) div 2)) \<le> key (a ! j))"

definition up_inv :: "('a \<Rightarrow> real) \<Rightarrow> 'a \<Rightarrow> 'a list \<Rightarrow> nat \<Rightarrow> bool" where
  \<comment> \<open>the loop invariant of \<^verbatim>\<open>add\<close>: the heap order holds but for the edge into the hole \<open>i\<close>
      that waits for \<open>v\<close>, whose children are above both \<open>v\<close> and the parent of \<open>i\<close>\<close>
  "up_inv key v a i =
     (i < length a \<and>
      (\<forall>j. 0 < j \<and> j < length a \<and> j \<noteq> i \<longrightarrow> key (a ! ((j - 1) div 2)) \<le> key (a ! j)) \<and>
      (\<forall>c. 0 < c \<and> c < length a \<and> (c - 1) div 2 = i \<longrightarrow>
           key v \<le> key (a ! c) \<and> (0 < i \<longrightarrow> key (a ! ((i - 1) div 2)) \<le> key (a ! c))))"

definition down_inv :: "('a \<Rightarrow> real) \<Rightarrow> 'a \<Rightarrow> 'a list \<Rightarrow> nat \<Rightarrow> bool" where
  \<comment> \<open>the loop invariant of \<^verbatim>\<open>_percolateDown\<close>: the heap order holds but for the edges out of
      the hole \<open>i\<close> that waits for \<open>ai\<close>, whose children are above the parent of \<open>i\<close>\<close>
  "down_inv key ai a i =
     (i < length a \<and>
      (\<forall>j. 0 < j \<and> j < length a \<and> j \<noteq> i \<and> (j - 1) div 2 \<noteq> i \<longrightarrow>
           key (a ! ((j - 1) div 2)) \<le> key (a ! j)) \<and>
      (0 < i \<longrightarrow> key (a ! ((i - 1) div 2)) \<le> key ai) \<and>
      (\<forall>c. 0 < c \<and> c < length a \<and> (c - 1) div 2 = i \<and> 0 < i \<longrightarrow>
           key (a ! ((i - 1) div 2)) \<le> key (a ! c)))"

fun js_ge :: "jsnum \<Rightarrow> jsnum \<Rightarrow> bool" where
  \<comment> \<open>\<^verbatim>\<open>>=\<close> on numbers: false when either side is \<open>NaN\<close>\<close>
  "js_ge (Num a) (Num b) = (a \<ge> b)"
| "js_ge _ _ = False"

definition score_of :: "SearchResult \<Rightarrow> real" where
  \<comment> \<open>the finite score of a result\<close>
  "score_of r = (case similarity r of Num x \<Rightarrow> x | NaN \<Rightarrow> 0)"

definition comparable :: "SearchResult set" where
  \<comment> \<open>the results whose score is not \<open>NaN\<close>\<close>
  "comparable = {r. similarity r \<noteq> NaN}"

definition queue_ok :: "SearchResult list \<Rightarrow> bool" where
  \<comment> \<open>a queue of comparable results in heap order\<close>
  "queue_ok queue = (is_heap score_of queue \<and> set queue \<subseteq> comparable)"

subsection \<open>Example records for searching\<close>

definition v_north :: Filter where
  \<comment> \<open>\<^verbatim>\<open>{id: 1, embedding: [0, 1]}\<close>\<close>
  "v_north = [(''id'', Prim (Number (Num 1))), (''embedding'', Array [Number (Num 0), Number (Num 1)])]"

definition v_zero :: Filter where
  \<comment> \<open>\<^verbatim>\<open>{id: 2, embedding: [0, 0]}\<close>\<close>
  "v_zero = [(''id'', Prim (Number (Num 2))), (''embedding'', Array [Number (Num 0), Number (Num 0)])]"

definition v_east :: Filter where
  \<comment> \<open>\<^verbatim>\<open>{id: 3, embedding: [1, 0]}\<close>\<close>
  "v_east = [(''id'', Prim (Number (Num 3))), (''embedding'', Array [Number (Num 1), Number (Num 0)])]"

definition v_west :: Filter where
  \<comment> \<open>\<^verbatim>\<open>{id: 4, embedding: [-1, 0]}\<close>\<close>
  "v_west = [(''id'', Prim (Number (Num 4))), (''embedding'', Array [Number (Num (-1)), Number (Num 0)])]"

definition v_diag :: Filter where
  \<comment> \<open>\<^verbatim>\<open>{id: 5, embedding: [0.7, 0.7]}\<close>\<close>
  "v_diag = [(''id'', Prim (Number (Num 5))),
             (''embedding'', Array [Number (Num (7 / 10)), Number (Num (7 / 10))])]"

definition compass_index :: EmbeddingIndex where
  \<comment> \<open>the index that \<^verbatim>\<open>new EmbeddingIndex([v_north, v_zero, v_east, v_west])\<close> returns\<close>
  "compass_index = new_index\<lparr>objects := [v_north, v_zero, v_east, v_west], keys := [''id'', ''embedding'']\<rparr>"

definition v_tilt :: Filter where
  \<comment> \<open>\<^verbatim>\<open>{id: 6, embedding: [0.6, 0.8]}\<close>\<close>
  "v_tilt = [(''id'', Prim (Number (Num 6))),
             (''embedding'', Array [Number (Num (3 / 5)), Number (Num (4 / 5))])]"

definition tilt_index :: EmbeddingIndex where
  \<comment> \<open>the index that \<^verbatim>\<open>new EmbeddingIndex([v_north, v_zero, v_east, v_west, v_tilt])\<close> returns\<close>
  "tilt_index = new_index\<lparr>objects := [v_north, v_zero, v_east, v_west, v_tilt], keys := [''id'', ''embedding'']\<rparr>"

definition three_index :: EmbeddingIndex where
  \<comment> \<open>the index that \<^verbatim>\<open>new EmbeddingIndex([v_east, v_north, v_diag])\<close> returns\<close>
  "three_index = new_index\<lparr>objects := [v_east, v_north, v_diag], keys := [''id'', ''embedding'']\<rparr>"

definition top_k :: "int \<Rightarrow> SearchOptions" where
  \<comment> \<open>\<^verbatim>\<open>{topK: k}\<close>\<close>
  "top_k k = \<lparr>topK = Some k, filter_opt = None, useStorage = None, storageOptions = None\<rparr>"

section \<open>The record store\<close>

subsection \<open>Finding the first match\<close>

lemma findIndex_range:
  "findIndex P xs = -1 \<or> (0 \<le> findIndex P xs \<and> findIndex P xs < int (length xs))"
  by (induction xs) (auto simp: Let_def)

lemma findIndex_none: "findIndex P xs = -1 \<longleftrightarrow> \<not> (\<exists>x \<in> set xs. P x)"
proof (induction xs)
  case Nil
  then show ?case by simp
next
  case (Cons x xs)
  then show ?case using findIndex_range [of P xs] by (auto simp: Let_def)
qed

lemma findIndex_find:
  "findIndex P xs \<noteq> -1 \<Longrightarrow> List.find P xs = Some (xs ! nat (findIndex P xs))"
proof (induction xs)
  case Nil
  then show ?case by simp
next
  case (Cons x xs)
  show ?case
  proof (cases "P x")
    case True
    then show ?thesis by simp
  next
    case False
    with Cons.prems have ne: "findIndex P xs \<noteq> -1" by (auto simp: Let_def split: if_splits)
    moreover from ne findIndex_range [of P xs] have "0 \<le> findIndex P xs" by auto
    ultimately show ?thesis using False Cons.IH by (simp add: Let_def nat_add_distrib)
  qed
qed

lemma find_None_findIndex: "findIndex P xs = -1 \<Longrightarrow> List.find P xs = None"
  by (simp add: findIndex_none find_None_iff)

lemma constructor_None: "constructor None = Inr new_index"
  by (simp add: constructor_def initialize_def new_index_def)

subsection \<open>add\<close>

lemma some_isNaN_numbers:
  "numbers_only v \<Longrightarrow> some_isNaN v = contains_NaN v"
proof (cases v)
  case (Prim p)
  then show ?thesis by (simp add: contains_NaN_def)
next
  case (Array ps)
  assume "numbers_only v"
  with Array have "list_all (\<lambda>p. case p of Number n \<Rightarrow> True | _ \<Rightarrow> False) ps"
    by (simp add: numbers_only_def)
  then have "list_ex isNaN ps = (Number NaN \<in> set ps)"
    by (induction ps) (auto split: prim.splits)
  with Array show ?thesis by (simp add: contains_NaN_def)
qed

lemma contains_NaN_some_isNaN: "contains_NaN v \<Longrightarrow> some_isNaN v"
  by (cases v) (auto simp: contains_NaN_def list_ex_iff intro!: bexI [where x = "Number NaN"])

lemma validateAndAdd_raises:
  "(\<exists>e. fst (validateAndAdd obj s) = Inl e) \<longleftrightarrow>
     \<not> Array_isArray (getProp obj ''embedding'') \<or> some_isNaN (getProp obj ''embedding'') \<or>
     (keys s \<noteq> [] \<and> (\<exists>k \<in> set (keys s). \<not> key_in k obj))"
  by (auto simp: validateAndAdd_def list_all_iff)

text \<open>
  C5, as the code has it. \<^verbatim>\<open>add(record)\<close> raises a validation error when the record's
  \<^verbatim>\<open>embedding\<close> is missing or not an array, or contains \<open>NaN\<close>, or when a schema has been
  established (\<^verbatim>\<open>keys\<close> is non-empty, whether or not the store still holds records) and
  one of its attributes is not found in the record. For a record whose \<^verbatim>\<open>embedding\<close>,
  if it is an array, holds only numbers, it raises in no other case. Whenever it
  raises, the index is unchanged. On success the record is appended at the end, and
  the schema becomes the record's attribute names if none was established.
\<close>

theorem add_raises_iff:
  "(\<not> Array_isArray (getProp obj ''embedding'') \<or> contains_NaN (getProp obj ''embedding'') \<or>
      (keys s \<noteq> [] \<and> (\<exists>k \<in> set (keys s). \<not> key_in k obj))
    \<longrightarrow> (\<exists>e. fst (add obj s) = Inl e)) \<and>
   (typed_record obj \<longrightarrow> (\<exists>e. fst (add obj s) = Inl e) \<longrightarrow>
      \<not> Array_isArray (getProp obj ''embedding'') \<or> contains_NaN (getProp obj ''embedding'') \<or>
      (keys s \<noteq> [] \<and> (\<exists>k \<in> set (keys s). \<not> key_in k obj))) \<and>
   (\<forall>e. fst (add obj s) = Inl e \<longrightarrow> is_ValidationError e \<and> snd (add obj s) = s) \<and>
   (fst (add obj s) = Inr () \<longrightarrow>
      snd (add obj s) =
        s\<lparr>objects := objects s @ [obj],
          keys := (if keys s = [] then Object_keys obj else keys s)\<rparr>)"
proof (intro conjI impI allI)
  assume "\<not> Array_isArray (getProp obj ''embedding'') \<or> contains_NaN (getProp obj ''embedding'') \<or>
      (keys s \<noteq> [] \<and> (\<exists>k \<in> set (keys s). \<not> key_in k obj))"
  then show "\<exists>e. fst (add obj s) = Inl e"
    using validateAndAdd_raises [of obj s] contains_NaN_some_isNaN [of "getProp obj ''embedding''"]
    by (auto simp: add_def)
next
  assume "typed_record obj" and "\<exists>e. fst (add obj s) = Inl e"
  then show "\<not> Array_isArray (getProp obj ''embedding'') \<or> contains_NaN (getProp obj ''embedding'') \<or>
      (keys s \<noteq> [] \<and> (\<exists>k \<in> set (keys s). \<not> key_in k obj))"
    using validateAndAdd_raises [of obj s] some_isNaN_numbers [of "getProp obj ''embedding''"]
    by (auto simp: add_def typed_record_def)
next
  fix e assume "fst (add obj s) = Inl e"
  then show "is_ValidationError e" and "snd (add obj s) = s"
    by (auto simp: add_def validateAndAdd_def is_ValidationError_def split: if_splits)
next
  assume "fst (add obj s) = Inr ()"
  then show "snd (add obj s) =
        s\<lparr>objects := objects s @ [obj],
          keys := (if keys s = [] then Object_keys obj else keys s)\<rparr>"
    by (auto simp: add_def validateAndAdd_def split: if_splits)
qed

theorem add_raises_iff_witness:
  "typed_record [(''embedding'', Array [Number (Num 1)])] \<and>
   fst (add [(''embedding'', Array [Number (Num 1)])] new_index) = Inr () \<and>
   objects (snd (add [(''embedding'', Array [Number (Num 1)])] new_index)) =
     [[(''embedding'', Array [Number (Num 1)])]] \<and>
   keys (snd (add [(''embedding'', Array [Number (Num 1)])] new_index)) = [''embedding''] \<and>
   contains_NaN (getProp [(''embedding'', Array [Number (Num 1), Number NaN])] ''embedding'') \<and>
   fst (add [(''embedding'', Array [Number (Num 1), Number NaN])] new_index) = Inl EmbeddingInvalid \<and>
   snd (add [(''embedding'', Array [Number (Num 1), Number NaN])] new_index) = new_index"
  using add_raises_iff [of "[(''embedding'', Array [Number (Num 1)])]" new_index]
        add_raises_iff [of "[(''embedding'', Array [Number (Num 1), Number NaN])]" new_index]
  by (simp add: new_index_def getProp_def Object_keys_def add_def validateAndAdd_def
      typed_record_def numbers_only_def contains_NaN_def)

text \<open>
  Where C5 as stated fails. After \<^verbatim>\<open>add({id: 1, embedding: [1]})\<close> and \<^verbatim>\<open>clear()\<close> the
  store is empty but the schema is kept, so \<^verbatim>\<open>add({embedding: [2]})\<close> raises although
  the store is empty and the embedding is a sequence of numbers.
\<close>

theorem add_counterexample:
  "objects (snd (clear (snd (add [(''id'', Prim (Number (Num 1))),
                                  (''embedding'', Array [Number (Num 1)])] new_index)))) = [] \<and>
   numeric_sequence (getProp [(''embedding'', Array [Number (Num 2)])] ''embedding'') \<and>
   fst (add [(''embedding'', Array [Number (Num 2)])]
          (snd (clear (snd (add [(''id'', Prim (Number (Num 1))),
                                 (''embedding'', Array [Number (Num 1)])] new_index)))))
     = Inl SchemaMismatch"
  by (simp add: new_index_def getProp_def Object_keys_def add_def validateAndAdd_def clear_def
      numeric_sequence_def has_key_def key_in_def Object_prototype_def)

subsection \<open>remove and get\<close>

text \<open>
  C8. \<^verbatim>\<open>remove(filter)\<close> raises the not-found error if and only if no record matches the
  filter, in particular on an empty store, and then leaves the index unchanged.
  \<^verbatim>\<open>get(filter)\<close> never raises: it returns the first matching record in storage order,
  or \<^verbatim>\<open>null\<close> when there is none; the empty filter matches every record, so it returns
  the first record of a non-empty store.
\<close>

theorem remove_raises_get_returns:
  "(fst (remove_ei flt s) = Inl VectorNotFound \<longleftrightarrow> \<not> (\<exists>r \<in> set (objects s). matches flt r)) \<and>
   (\<forall>e. fst (remove_ei flt s) = Inl e \<longrightarrow> is_NotFoundError e \<and> snd (remove_ei flt s) = s) \<and>
   ((\<exists>r \<in> set (objects s). matches flt r) \<longrightarrow> fst (remove_ei flt s) = Inr ()) \<and>
   (objects s = [] \<longrightarrow> fst (remove_ei flt s) = Inl VectorNotFound) \<and>
   get flt s = (Inr (List.find (matches flt) (objects s)), s) \<and>
   get [] s = (Inr (case objects s of [] \<Rightarrow> None | r # rs \<Rightarrow> Some r), s)"
proof -
  have g: "get f s = (Inr (List.find (matches f) (objects s)), s)" for f
    using findIndex_range [of "matches f" "objects s"] findIndex_find [of "matches f" "objects s"]
      find_None_findIndex [of "matches f" "objects s"]
    by (auto simp: get_def findVectorIndex_def Let_def)
  have e: "matches [] r" for r by (simp add: matches_def Object_keys_def)
  have "List.find (matches []) (objects s) = (case objects s of [] \<Rightarrow> None | r # rs \<Rightarrow> Some r)"
    by (cases "objects s") (simp_all add: e)
  with g show ?thesis
    using findIndex_none [of "matches flt" "objects s"]
    by (auto simp: remove_ei_def findVectorIndex_def Let_def is_NotFoundError_def)
qed

theorem remove_raises_get_returns_witness:
  "fst (remove_ei [(''id'', Prim (Number (Num 2)))] (snd (add rec1 new_index))) = Inl VectorNotFound \<and>
   fst (remove_ei [(''id'', Prim (Number (Num 1)))] (snd (add rec1 new_index))) = Inr () \<and>
   fst (remove_ei [] new_index) = Inl VectorNotFound \<and>
   fst (get [(''id'', Prim (Number (Num 2)))] (snd (add rec1 new_index))) = Inr None \<and>
   fst (get [] (snd (add rec1 new_index))) = Inr (Some rec1)"
  using remove_raises_get_returns [of "[(''id'', Prim (Number (Num 2)))]" "snd (add rec1 new_index)"]
    remove_raises_get_returns [of "[(''id'', Prim (Number (Num 1)))]" "snd (add rec1 new_index)"]
    remove_raises_get_returns [of "[]" "new_index"]
    remove_raises_get_returns [of "[]" "snd (add rec1 new_index)"]
  by (simp add: rec1_def new_index_def add_def validateAndAdd_def getProp_def Object_keys_def matches_def)

subsection \<open>Construction\<close>

lemma validateAndAdd_keys:
  "validateAndAdd x s = (Inr u, s') \<Longrightarrow>
     keys s' \<noteq> [] \<and> keys s' = (if keys s = [] then Object_keys x else keys s)"
  by (cases "map_of x ''embedding''")
     (auto simp: validateAndAdd_def getProp_def Object_keys_def split: if_splits)

lemma validateAndAdd_cache:
  "indexedDBDataCache (snd (validateAndAdd x s)) = indexedDBDataCache s \<and>
   preloadedDBName (snd (validateAndAdd x s)) = preloadedDBName s \<and>
   preloadedObjectStoreName (snd (validateAndAdd x s)) = preloadedObjectStoreName s"
  by (simp add: validateAndAdd_def)

lemma forEach_keys_established:
  "forEach validateAndAdd xs s = (Inr u, s') \<Longrightarrow> keys s \<noteq> [] \<Longrightarrow> keys s' = keys s"
proof (induction xs arbitrary: s)
  case Nil
  then show ?case by simp
next
  case (Cons x xs)
  obtain r t where vt: "validateAndAdd x s = (r, t)" by (cases "validateAndAdd x s")
  with Cons.prems obtain v where r: "r = Inr v" and rest: "forEach validateAndAdd xs t = (Inr u, s')"
    by (cases r) auto
  from vt r Cons.prems(2) validateAndAdd_keys [of x s v t] have "keys t = keys s" by simp
  with Cons.IH [OF rest] Cons.prems(2) show ?case by simp
qed

lemma forEach_keys_first:
  assumes "forEach validateAndAdd (x # xs) s = (Inr u, s')" and "keys s = []"
  shows "keys s' = Object_keys x"
proof -
  obtain r t where vt: "validateAndAdd x s = (r, t)" by (cases "validateAndAdd x s")
  with assms obtain v where r: "r = Inr v" and rest: "forEach validateAndAdd xs t = (Inr u, s')"
    by (cases r) auto
  from vt r assms(2) validateAndAdd_keys [of x s v t]
  have "keys t \<noteq> []" and "keys t = Object_keys x" by auto
  with forEach_keys_established [OF rest] show ?thesis by simp
qed

lemma forEach_cache:
  "indexedDBDataCache (snd (forEach validateAndAdd xs s)) = indexedDBDataCache s \<and>
   preloadedDBName (snd (forEach validateAndAdd xs s)) = preloadedDBName s \<and>
   preloadedObjectStoreName (snd (forEach validateAndAdd xs s)) = preloadedObjectStoreName s"
proof (induction xs arbitrary: s)
  case Nil
  then show ?case by simp
next
  case (Cons x xs)
  then show ?case
    using validateAndAdd_cache [of x s]
    by (cases "validateAndAdd x s"; cases "fst (validateAndAdd x s)") auto
qed

lemma initialize_new:
  "initialize (Some xs) new_index =
     (case forEach validateAndAdd xs new_index of (Inl e, t) \<Rightarrow> (Inl e, t) | (Inr u, t) \<Rightarrow> (Inr (), t))"
proof (cases xs)
  case Nil
  then show ?thesis by (simp add: initialize_def new_index_def)
next
  case (Cons x xs')
  have s1: "new_index\<lparr>objects := [], keys := []\<rparr> = new_index" by (simp add: new_index_def)
  obtain r t where f: "forEach validateAndAdd xs new_index = (r, t)"
    by (cases "forEach validateAndAdd xs new_index")
  show ?thesis
  proof (cases r)
    case (Inl e)
    with f Cons show ?thesis by (simp add: initialize_def s1)
  next
    case (Inr u)
    with f Cons forEach_keys_first [of x xs' new_index u t] have "keys t = Object_keys x"
      by (simp add: new_index_def)
    then have "t\<lparr>keys := Object_keys (hd xs)\<rparr> = t" using Cons by simp
    with f Inr Cons show ?thesis by (simp add: initialize_def s1)
  qed
qed

lemma initialize_reset:
  assumes "indexedDBDataCache s = None" "preloadedDBName s = None" "preloadedObjectStoreName s = None"
  shows "initialize init s = initialize init new_index"
proof -
  from assms have "s\<lparr>objects := [], keys := []\<rparr> = new_index\<lparr>objects := [], keys := []\<rparr>"
    by (cases s) (simp add: new_index_def)
  then show ?thesis by (simp add: initialize_def)
qed

lemma constructor_forEach:
  "constructor (Some xs) =
     (case forEach add xs new_index of (Inl e, t) \<Rightarrow> Inl e | (Inr u, t) \<Rightarrow> Inr t)"
proof -
  have fa: "forEach add = forEach validateAndAdd"
    by (intro arg_cong [where f = forEach] ext) (simp add: add_def)
  obtain r t where f: "forEach validateAndAdd xs new_index = (r, t)"
    by (cases "forEach validateAndAdd xs new_index")
  have c: "indexedDBDataCache t = None \<and> preloadedDBName t = None \<and> preloadedObjectStoreName t = None"
    using forEach_cache [of xs new_index] f by (simp add: new_index_def)
  have s0: "\<lparr>objects = [], keys = [], indexedDBDataCache = None,
             preloadedDBName = None, preloadedObjectStoreName = None\<rparr> = new_index"
    by (simp add: new_index_def)
  have "constructor (Some xs) = (case r of Inl e \<Rightarrow> Inl e | Inr u \<Rightarrow> Inr t)"
  proof (cases r)
    case (Inl e)
    with f show ?thesis by (simp add: constructor_def s0 initialize_new)
  next
    case (Inr u)
    have i1: "initialize (Some xs) new_index = (Inr (), t)" using f Inr by (simp add: initialize_new)
    have i2: "initialize (Some xs) t = (Inr (), t)" using initialize_reset [of t "Some xs"] c i1 by simp
    have "t\<lparr>indexedDBDataCache := None, preloadedDBName := None, preloadedObjectStoreName := None\<rparr> = t"
      using c by simp
    with i1 i2 Inr show ?thesis by (simp add: constructor_def s0)
  qed
  with f show ?thesis by (cases r) (simp_all add: fa)
qed

text \<open>
  C10. Constructing an index from an initial sequence of records gives the state that
  constructing an empty index and calling \<^verbatim>\<open>add\<close> on each record in order gives: the same
  records in the same order, the same schema, an empty cache. The constructor throws
  exactly when one of those calls would, with the same error. The block the
  constructor runs twice resets the records and the schema before it adds again.
\<close>

theorem constructor_equals_adds:
  "constructor (Some xs) =
     (case forEach add xs new_index of (Inl e, t) \<Rightarrow> Inl e | (Inr u, t) \<Rightarrow> Inr t) \<and>
   constructor None = Inr new_index"
  by (simp add: constructor_forEach constructor_None)

subsection \<open>update\<close>

text \<open>
  C2 at a failing input. The store holds \<^verbatim>\<open>{id: 1, embedding: [1]}\<close>. A patch with an
  \<^verbatim>\<open>embedding\<close> goes through \<^verbatim>\<open>validateAndAdd\<close>, which also pushes it: after
  \<^verbatim>\<open>update({id: 1}, {embedding: [2], id: 1})\<close> the store holds two records, the merged
  one and the patch itself. The same call checks the patch against the whole schema:
  \<^verbatim>\<open>update({id: 1}, {embedding: [2]})\<close> raises the schema error.
\<close>

theorem update_appends_patch:
  "size_ei (snd (add rec1 new_index)) = (Inr 1, snd (add rec1 new_index)) \<and>
   fst (update [(''id'', Prim (Number (Num 1)))] [(''embedding'', Array [Number (Num 2)]), (''id'', Prim (Number (Num 1)))] (snd (add rec1 new_index))) = Inr () \<and>
   objects (snd (update [(''id'', Prim (Number (Num 1)))] [(''embedding'', Array [Number (Num 2)]), (''id'', Prim (Number (Num 1)))] (snd (add rec1 new_index))))
    = [[(''id'', Prim (Number (Num 1))), (''embedding'', Array [Number (Num 2)])],
       [(''embedding'', Array [Number (Num 2)]), (''id'', Prim (Number (Num 1)))]] \<and>
   update [(''id'', Prim (Number (Num 1)))] [(''embedding'', Array [Number (Num 2)])] (snd (add rec1 new_index))
    = (Inl SchemaMismatch, snd (add rec1 new_index))"
  by (simp add: rec1_def new_index_def add_def validateAndAdd_def getProp_def Object_keys_def matches_def
     update_def findVectorIndex_def has_key_def key_in_def Object_prototype_def size_ei_def Object_assign_def Let_def)

subsection \<open>The invariant of the store\<close>

lemma has_key_update: "has_key k (AList.update k' v t) \<longleftrightarrow> k = k' \<or> has_key k t"
  using AList.dom_update [of k' v t] by (auto simp: has_key_def)

lemma getProp_update: "getProp (AList.update k' v t) k = (if k = k' then v else getProp t k)"
  by (simp add: getProp_def AList.update_conv')

lemma has_key_fold_update:
  "has_key k (fold (\<lambda>k t. AList.update k (f k) t) ks t) \<longleftrightarrow> k \<in> set ks \<or> has_key k t"
  by (induction ks arbitrary: t) (auto simp: has_key_update)

lemma getProp_fold_update:
  "getProp (fold (\<lambda>k t. AList.update k (f k) t) ks t) k = (if k \<in> set ks then f k else getProp t k)"
  by (induction ks arbitrary: t) (auto simp: getProp_update)

lemma has_key_assign: "has_key k (Object_assign t v) \<longleftrightarrow> has_key k v \<or> has_key k t"
  by (simp add: Object_assign_def has_key_fold_update Object_keys_def, simp add: has_key_def)

lemma getProp_assign: "getProp (Object_assign t v) k = (if has_key k v then getProp v k else getProp t k)"
  by (simp add: Object_assign_def getProp_fold_update Object_keys_def, simp add: has_key_def)

lemma key_in_assign: "key_in k t \<Longrightarrow> key_in k (Object_assign t v)"
  by (auto simp: key_in_def has_key_assign)

lemma store_inv_alt:
  "store_inv s = ((keys s = [] \<longrightarrow> objects s = []) \<and> (\<forall>r \<in> set (objects s). record_ok (keys s) r))"
  by (simp add: store_inv_def list_all_iff)

lemma validated_numeric:
  assumes "numbers_only v" "Array_isArray v" "\<not> some_isNaN v"
  shows "numeric_sequence v"
proof (cases v)
  case (Prim p)
  with assms(2) show ?thesis by simp
next
  case (Array ps)
  with assms(1) have n: "list_all (\<lambda>p. case p of Number n \<Rightarrow> True | _ \<Rightarrow> False) ps"
    by (simp add: numbers_only_def)
  from assms(3) Array have "\<not> list_ex isNaN ps" by simp
  with n have "list_all (\<lambda>p. case p of Number n \<Rightarrow> n \<noteq> NaN | _ \<Rightarrow> False) ps"
    by (induction ps) (auto split: prim.splits)
  with Array show ?thesis by (simp add: numeric_sequence_def)
qed

lemma validateAndAdd_inv:
  assumes "store_inv s" and "typed_record x"
  shows "store_inv (snd (validateAndAdd x s))"
proof -
  have "Object_keys x \<noteq> []" if "Array_isArray (getProp x ''embedding'')"
    using that by (cases "map_of x ''embedding''") (auto simp: getProp_def Object_keys_def)
  moreover have "list_all (\<lambda>k. key_in k x) (Object_keys x)"
    by (simp add: list_all_iff has_key_def key_in_def Object_keys_def)
  moreover have "numeric_sequence (getProp x ''embedding'')"
    if "Array_isArray (getProp x ''embedding'')" "\<not> some_isNaN (getProp x ''embedding'')"
    using validated_numeric that assms(2) by (simp add: typed_record_def)
  ultimately show ?thesis using assms(1)
    by (auto simp: store_inv_alt record_ok_def validateAndAdd_def)
qed

lemma validateAndAdd_ok:
  assumes "validateAndAdd x s = (Inr u, s')"
  shows "Array_isArray (getProp x ''embedding'') \<and> \<not> some_isNaN (getProp x ''embedding'') \<and>
         (\<exists>ys. objects s' = objects s @ ys)"
  using assms by (auto simp: validateAndAdd_def split: if_splits)

lemma set_splice1: "set (splice1 i xs) \<subseteq> set xs"
  by (auto simp: splice1_def dest: in_set_takeD in_set_dropD)

lemma inv_subset:
  assumes "store_inv s" "set ys \<subseteq> set (objects s)"
  shows "store_inv (s\<lparr>objects := ys\<rparr>)"
  using assms by (auto simp: store_inv_alt)

lemma update_inv:
  assumes "store_inv s" and typed: "typed_record vector"
  shows "store_inv (snd (update flt vector s))"
proof (cases "findVectorIndex flt s = -1")
  case True
  with assms show ?thesis by (simp add: update_def)
next
  case False
  define i where "i = nat (findVectorIndex flt s)"
  from False findIndex_range [of "matches flt" "objects s"]
  have i: "i < length (objects s)" by (auto simp: findVectorIndex_def i_def)
  show ?thesis
  proof (cases "has_key ''embedding'' vector")
    case noemb: False
    have "store_inv (s\<lparr>objects := (objects s)[i := Object_assign (objects s ! i) vector]\<rparr>)"
      using assms(1) i noemb
      by (auto simp: store_inv_alt record_ok_def list_all_iff key_in_assign getProp_assign
          dest!: set_update_subset_insert [THEN subsetD])
    with False noemb show ?thesis by (simp add: update_def i_def Let_def)
  next
    case emb: True
    obtain r t where vt: "validateAndAdd vector s = (r, t)" by (cases "validateAndAdd vector s")
    have invt: "store_inv t" using validateAndAdd_inv [OF assms(1) typed] vt by simp
    show ?thesis
    proof (cases r)
      case (Inl e)
      with vt emb False invt show ?thesis by (simp add: update_def Let_def)
    next
      case (Inr u)
      from validateAndAdd_ok [of vector s u t] vt Inr
      have ok: "Array_isArray (getProp vector ''embedding'')" "\<not> some_isNaN (getProp vector ''embedding'')"
        and "\<exists>ys. objects t = objects s @ ys" by auto
      then have it: "i < length (objects t)" using i by auto
      have num: "numeric_sequence (getProp vector ''embedding'')"
        using validated_numeric ok typed by (simp add: typed_record_def)
      have "store_inv (t\<lparr>objects := (objects t)[i := Object_assign (objects t ! i) vector]\<rparr>)"
        using invt it emb num
        by (auto simp: store_inv_alt record_ok_def list_all_iff key_in_assign getProp_assign
            dest!: set_update_subset_insert [THEN subsetD])
      with vt Inr emb False show ?thesis by (simp add: update_def i_def Let_def)
    qed
  qed
qed

lemma removeBatch_inv:
  assumes "store_inv s"
  shows "store_inv (snd (removeBatch filters s))"
proof -
  have "store_inv (fold (\<lambda>flt t. let index = findVectorIndex flt t
              in if index \<noteq> -1 then t\<lparr>objects := splice1 index (objects t)\<rparr> else t) filters s)"
    using assms
  proof (induction filters arbitrary: s)
    case Nil
    then show ?case by simp
  next
    case (Cons f fs)
    have "store_inv (s\<lparr>objects := splice1 j (objects s)\<rparr>)" for j
      using inv_subset [OF Cons.prems set_splice1] .
    with Cons show ?case by (simp add: Let_def)
  qed
  then show ?thesis by (simp add: removeBatch_def)
qed

lemma perform_inv:
  assumes "store_inv s" and "typed_call c"
  shows "store_inv (snd (perform c s))"
proof (cases c)
  case (Add x)
  then show ?thesis using validateAndAdd_inv [OF assms(1)] assms(2) by (simp add: add_def)
next
  case (Update f v)
  then show ?thesis using update_inv [OF assms(1)] assms(2) by simp
next
  case (Remove f)
  then show ?thesis
    using inv_subset [OF assms(1) set_splice1] assms(1) by (simp add: remove_ei_def Let_def)
next
  case (RemoveBatch fs)
  then show ?thesis using removeBatch_inv [OF assms(1)] by simp
next
  case Clear
  then show ?thesis using assms(1) by (simp add: clear_def store_inv_alt)
qed

lemma forEach_inv:
  assumes "\<And>x s. x \<in> set xs \<Longrightarrow> P s \<Longrightarrow> P (snd (f x s))" and "P s"
  shows "P (snd (forEach f xs s))"
  using assms
proof (induction xs arbitrary: s)
  case Nil
  then show ?case by simp
next
  case (Cons x xs)
  have "P (snd (f x s))" using Cons.prems by simp
  moreover have "P (snd (forEach f xs t))" if "P t" for t
    using Cons.IH [OF _ that] Cons.prems(1) by simp
  ultimately show ?case
    by (cases "f x s"; cases "fst (f x s)") auto
qed

lemma constructor_inv:
  assumes "constructor init = Inr s" and "typed_records init"
  shows "store_inv s"
proof (cases init)
  case None
  with assms constructor_None show ?thesis by (auto simp: new_index_def store_inv_def)
next
  case (Some xs)
  have "store_inv new_index" by (simp add: new_index_def store_inv_def)
  moreover have "store_inv (snd (add x t))" if "x \<in> set xs" "store_inv t" for x t
    using validateAndAdd_inv [OF that(2), of x] that(1) assms(2) Some
    by (simp add: add_def typed_records_def list_all_iff)
  ultimately have "store_inv (snd (forEach add xs new_index))"
    by (intro forEach_inv [where P = store_inv])
  with assms Some show ?thesis
    using constructor_forEach [of xs] by (auto split: prod.splits sum.splits)
qed

text \<open>
  C6, as the code has it. Take any index the constructor returns and any sequence of
  calls to \<^verbatim>\<open>add\<close>, \<^verbatim>\<open>update\<close>, \<^verbatim>\<open>remove\<close>, \<^verbatim>\<open>removeBatch\<close> and \<^verbatim>\<open>clear\<close> (run until one
  of them throws, if any does), where every record and patch passed in has an
  \<^verbatim>\<open>embedding\<close> that, if it is an array, holds only numbers. Then every attribute of
  the schema is found in every record held in the store (a record may have more), and
  every held record has an \<^verbatim>\<open>embedding\<close> that is an array (possibly empty) of numbers
  none of which is \<open>NaN\<close>; and records are only held once a schema is established.
\<close>

theorem store_invariant:
  "constructor init = Inr s \<Longrightarrow> typed_records init \<Longrightarrow> list_all typed_call cs \<Longrightarrow>
   store_inv (snd (forEach perform cs s))"
proof -
  assume c: "constructor init = Inr s" and t: "typed_records init" and cs: "list_all typed_call cs"
  have "store_inv (snd (perform x u))" if "x \<in> set cs" "store_inv u" for x u
    using perform_inv [OF that(2), of x] that(1) cs by (simp add: list_all_iff)
  then show ?thesis
    using constructor_inv [OF c t] by (intro forEach_inv [where P = store_inv])
qed

theorem store_invariant_witness:
  "constructor (Some [rec1]) =
     Inr \<lparr>objects = [rec1], keys = [''id'', ''embedding''], indexedDBDataCache = None,
          preloadedDBName = None, preloadedObjectStoreName = None\<rparr> \<and>
   typed_records (Some [rec1]) \<and>
   list_all typed_call
     [Add rec3, Update [(''tag'', Prim (String ''x''))] [(''tag'', Prim (String ''y''))]] \<and>
   objects (snd (forEach perform
       [Add rec3, Update [(''tag'', Prim (String ''x''))] [(''tag'', Prim (String ''y''))]]
       \<lparr>objects = [rec1], keys = [''id'', ''embedding''], indexedDBDataCache = None,
          preloadedDBName = None, preloadedObjectStoreName = None\<rparr>)) =
     [rec1, [(''id'', Prim (Number (Num 3))), (''embedding'', Array [Number (Num 1)]),
             (''tag'', Prim (String ''y''))]] \<and>
   store_inv (snd (forEach perform
       [Add rec3, Update [(''tag'', Prim (String ''x''))] [(''tag'', Prim (String ''y''))]]
       \<lparr>objects = [rec1], keys = [''id'', ''embedding''], indexedDBDataCache = None,
          preloadedDBName = None, preloadedObjectStoreName = None\<rparr>))"
proof -
  have c: "constructor (Some [rec1]) =
     Inr \<lparr>objects = [rec1], keys = [''id'', ''embedding''], indexedDBDataCache = None,
          preloadedDBName = None, preloadedObjectStoreName = None\<rparr>"
    by (simp add: constructor_def initialize_def validateAndAdd_def rec1_def getProp_def Object_keys_def)
  have t: "typed_records (Some [rec1])"
    by (simp add: typed_records_def typed_record_def numbers_only_def rec1_def getProp_def)
  have cs: "list_all typed_call
     [Add rec3, Update [(''tag'', Prim (String ''x''))] [(''tag'', Prim (String ''y''))]]"
    by (simp add: typed_record_def numbers_only_def rec3_def getProp_def)
  have o: "objects (snd (forEach perform
       [Add rec3, Update [(''tag'', Prim (String ''x''))] [(''tag'', Prim (String ''y''))]]
       \<lparr>objects = [rec1], keys = [''id'', ''embedding''], indexedDBDataCache = None,
          preloadedDBName = None, preloadedObjectStoreName = None\<rparr>)) =
     [rec1, [(''id'', Prim (Number (Num 3))), (''embedding'', Array [Number (Num 1)]),
             (''tag'', Prim (String ''y''))]]"
    by (simp add: add_def validateAndAdd_def update_def findVectorIndex_def matches_def
        rec1_def rec3_def getProp_def Object_keys_def has_key_def key_in_def Object_prototype_def
        Object_assign_def Let_def)
  from store_invariant [OF c t cs] c t cs o show ?thesis by simp
qed

text \<open>
  Where C6 as stated fails. \<^verbatim>\<open>add({embedding: []})\<close> succeeds on a new index, so a stored
  embedding may be empty. And after \<^verbatim>\<open>add({id: 1, embedding: [1]})\<close> the call
  \<^verbatim>\<open>add({id: 3, embedding: [1], tag: 'x'})\<close> succeeds, so two stored records differ in
  their attribute names.
\<close>

theorem store_invariant_counterexample:
  "forEach perform [Add [(''embedding'', Array [])]] new_index =
     (Inr (), new_index\<lparr>objects := [[(''embedding'', Array [])]], keys := [''embedding'']\<rparr>) \<and>
   forEach perform [Add rec1, Add rec3] new_index =
     (Inr (), new_index\<lparr>objects := [rec1, rec3], keys := [''id'', ''embedding'']\<rparr>) \<and>
   has_key ''tag'' rec3 \<and> \<not> has_key ''tag'' rec1"
  by (simp add: add_def validateAndAdd_def rec1_def rec3_def getProp_def Object_keys_def new_index_def
      has_key_def key_in_def Object_prototype_def)

section \<open>The cache\<close>

lemma fetch_count_fetchObjects: "fetch_count (snd (fetchObjects d st idb)) = fetch_count idb + 1"
  by (simp add: fetchObjects_def fetch_count_def Let_def split: option.splits)

text \<open>
  C3, as the code has it. An explicit \<^verbatim>\<open>preloadIndexedDB\<close> never raises: when the database
  cannot be opened, the object store is absent or the read fails, the error is logged
  and the call returns normally, leaving the cache cleared (no snapshot, no identity
  tag) and the records untouched. When the fetch succeeds the cache holds what was
  fetched, tagged with the requested identity.
\<close>

theorem preload_never_raises:
  "fst (preloadIndexedDB (Some DBname) (Some objectStoreName) idb s) = Inr () \<and>
   (cache_inv s \<longrightarrow> (\<forall>e. fst (fetchObjects DBname objectStoreName idb) = Inl e \<longrightarrow>
       fst (snd (preloadIndexedDB (Some DBname) (Some objectStoreName) idb s)) =
         s\<lparr>indexedDBDataCache := None, preloadedDBName := None, preloadedObjectStoreName := None\<rparr>)) \<and>
   (\<forall>fetched. fst (fetchObjects DBname objectStoreName idb) = Inr fetched \<longrightarrow>
       fst (snd (preloadIndexedDB (Some DBname) (Some objectStoreName) idb s)) =
         s\<lparr>indexedDBDataCache := Some fetched, preloadedDBName := Some DBname,
           preloadedObjectStoreName := Some objectStoreName\<rparr>)"
  by (cases "fetchObjects DBname objectStoreName idb"; cases "fst (fetchObjects DBname objectStoreName idb)")
     (auto simp: preloadIndexedDB_def default_arg_def clearIndexedDBCache_def cache_inv_def cache_cleared_def)

theorem preload_never_raises_witness:
  "cache_inv new_index \<and>
   fst (fetchObjects ''clientVectorDB'' ''ClientEmbeddingStore'' unreadable_store) = Inl FetchFailed \<and>
   fst (preloadIndexedDB (Some ''clientVectorDB'') (Some ''ClientEmbeddingStore'') unreadable_store new_index) = Inr () \<and>
   fst (snd (preloadIndexedDB (Some ''clientVectorDB'') (Some ''ClientEmbeddingStore'') unreadable_store new_index)) = new_index"
  using preload_never_raises [of "''clientVectorDB''" "''ClientEmbeddingStore''" unreadable_store new_index]
  by (simp add: cache_inv_def cache_cleared_def new_index_def fetchObjects_def unreadable_store_def Let_def)

text \<open>
  Where C3 as stated fails: with a database that cannot be opened, and with a store
  whose read fails, \<^verbatim>\<open>preloadIndexedDB\<close> returns normally instead of raising.
\<close>

theorem preload_counterexample:
  "fst (fetchObjects ''clientVectorDB'' ''ClientEmbeddingStore'' no_database) = Inl OpenFailed \<and>
   fst (fetchObjects ''clientVectorDB'' ''ClientEmbeddingStore'' unreadable_store) = Inl FetchFailed \<and>
   fst (preloadIndexedDB (Some ''clientVectorDB'') (Some ''ClientEmbeddingStore'') no_database new_index) = Inr () \<and>
   fst (preloadIndexedDB (Some ''clientVectorDB'') (Some ''ClientEmbeddingStore'') unreadable_store new_index) = Inr ()"
  by (simp add: fetchObjects_def preloadIndexedDB_def no_database_def unreadable_store_def default_arg_def Let_def)

lemma preloadForSearch_fail:
  "fst (fetchObjects DBname objectStoreName idb) = Inl e \<Longrightarrow>
   \<exists>e'. fst (preloadForSearch DBname objectStoreName idb s) = Inl e'"
  by (cases "fetchObjects DBname objectStoreName idb")
     (auto simp: preloadForSearch_def preloadIndexedDB_def default_arg_def clearIndexedDBCache_def)

lemma load_fail:
  assumes "fst (fetchObjects DBname objectStoreName idb) = Inl e"
    and "\<not> isCacheValid DBname objectStoreName s"
  shows "fst (loadAndSearchFromIndexedDB score (Some DBname) (Some objectStoreName) q k flt idb s) = Inr []"
proof -
  from preloadForSearch_fail [OF assms(1), of s] obtain e' s' idb'
    where "preloadForSearch DBname objectStoreName idb s = (Inl e', s', idb')"
    by (cases "preloadForSearch DBname objectStoreName idb s") auto
  with assms(2) show ?thesis by (simp add: loadAndSearchFromIndexedDB_def default_arg_def)
qed

text \<open>
  C4. A search on the storage-backed source that finds the cache invalid for the
  requested identity and whose preload then fails returns the empty list, and does
  not raise; this holds for \<^verbatim>\<open>loadAndSearchFromIndexedDB\<close> called directly and for
  \<^verbatim>\<open>search\<close> with \<^verbatim>\<open>useStorage: 'indexedDB'\<close> in an environment that has \<^verbatim>\<open>indexedDB\<close>.
\<close>

theorem search_degrades_on_preload_failure:
  "fst (fetchObjects DBname objectStoreName idb) = Inl e \<Longrightarrow>
   \<not> isCacheValid DBname objectStoreName s \<Longrightarrow>
   fst (loadAndSearchFromIndexedDB score (Some DBname) (Some objectStoreName) q k flt idb s) = Inr [] \<and>
   (useStorage options = Some UseIndexedDB \<longrightarrow>
    or_string (map_option indexedDBName (storageOptions options)) ''clientVectorDB'' = DBname \<longrightarrow>
    or_string (map_option indexedDBObjectStoreName (storageOptions options)) ''ClientEmbeddingStore'' = objectStoreName \<longrightarrow>
    fst (search score q (Some options) (Some idb) s) = Inr [])"
proof -
  have l: "fst (loadAndSearchFromIndexedDB score (Some DBname) (Some objectStoreName) q k' flt' idb s) = Inr []"
    if "fst (fetchObjects DBname objectStoreName idb) = Inl e" "\<not> isCacheValid DBname objectStoreName s" for k' flt'
    using load_fail [OF that] .
  assume a: "fst (fetchObjects DBname objectStoreName idb) = Inl e" "\<not> isCacheValid DBname objectStoreName s"
  show ?thesis
  proof (intro conjI impI)
    show "fst (loadAndSearchFromIndexedDB score (Some DBname) (Some objectStoreName) q k flt idb s) = Inr []"
      using l [OF a] .
  next
    assume "useStorage options = Some UseIndexedDB"
      and "or_string (map_option indexedDBName (storageOptions options)) ''clientVectorDB'' = DBname"
      and "or_string (map_option indexedDBObjectStoreName (storageOptions options)) ''ClientEmbeddingStore'' = objectStoreName"
    then show "fst (search score q (Some options) (Some idb) s) = Inr []"
      by (simp add: search_def default_arg_def Let_def case_prod_unfold l [OF a])
  qed
qed

theorem search_degrades_on_preload_failure_witness:
  "fst (fetchObjects ''clientVectorDB'' ''ClientEmbeddingStore'' unreadable_store) = Inl FetchFailed \<and>
   \<not> isCacheValid ''clientVectorDB'' ''ClientEmbeddingStore'' new_index \<and>
   fst (loadAndSearchFromIndexedDB cosineSimilarity (Some ''clientVectorDB'') (Some ''ClientEmbeddingStore'')
          [Num 1] 3 [] unreadable_store new_index) = Inr [] \<and>
   fst (search cosineSimilarity [Num 1]
          (Some \<lparr>topK = None, filter_opt = None, useStorage = Some UseIndexedDB, storageOptions = None\<rparr>)
          (Some unreadable_store) new_index) = Inr []"
proof -
  have f: "fst (fetchObjects ''clientVectorDB'' ''ClientEmbeddingStore'' unreadable_store) = Inl FetchFailed"
    by (simp add: fetchObjects_def unreadable_store_def Let_def)
  have v: "\<not> isCacheValid ''clientVectorDB'' ''ClientEmbeddingStore'' new_index"
    by (simp add: isCacheValid_def new_index_def)
  from search_degrades_on_preload_failure [OF f v, of cosineSimilarity "[Num 1]" 3 "[]"
      "\<lparr>topK = None, filter_opt = None, useStorage = Some UseIndexedDB, storageOptions = None\<rparr>"] f v
  show ?thesis by (simp add: or_string_def)
qed

lemma preload_calls:
  "fetch_count (snd (snd (preloadIndexedDB (Some d) (Some st) idb s))) = fetch_count idb + 1"
  using fetch_count_fetchObjects [of d st idb]
  by (cases "fetchObjects d st idb"; cases "fst (fetchObjects d st idb)")
     (auto simp: preloadIndexedDB_def default_arg_def)

lemma load_valid:
  "isCacheValid d st s \<Longrightarrow> indexedDBDataCache s = Some cache \<Longrightarrow>
   loadAndSearchFromIndexedDB score (Some d) (Some st) q k flt idb s =
     (Inr (search_stored score q k flt cache), s, idb)"
  by (simp add: loadAndSearchFromIndexedDB_def default_arg_def)

lemma load_invalid_count:
  "\<not> isCacheValid d st s \<Longrightarrow>
   fetch_count (snd (snd (loadAndSearchFromIndexedDB score (Some d) (Some st) q k flt idb s))) = fetch_count idb + 1"
  using preload_calls [of d st idb s]
  by (auto simp: loadAndSearchFromIndexedDB_def default_arg_def preloadForSearch_def
      split: prod.splits sum.splits option.splits)

lemma load_invalid_success:
  assumes "\<not> isCacheValid d st s" and "fst (fetchObjects d st idb) = Inr fetched"
  shows "loadAndSearchFromIndexedDB score (Some d) (Some st) q k flt idb s =
     (Inr (search_stored score q k flt fetched),
      (clearIndexedDBCache s)\<lparr>indexedDBDataCache := Some fetched, preloadedDBName := Some d,
        preloadedObjectStoreName := Some st\<rparr>,
      snd (fetchObjects d st idb))"
  using assms
  by (cases "fetchObjects d st idb")
     (simp add: loadAndSearchFromIndexedDB_def default_arg_def preloadForSearch_def preloadIndexedDB_def)

lemma load_invalid_failure:
  assumes "\<not> isCacheValid d st s" and "fst (fetchObjects d st idb) = Inl e"
  shows "loadAndSearchFromIndexedDB score (Some d) (Some st) q k flt idb s =
     (Inr [], clearIndexedDBCache s, snd (fetchObjects d st idb))"
  using assms
  by (cases "fetchObjects d st idb")
     (simp add: loadAndSearchFromIndexedDB_def default_arg_def preloadForSearch_def
        preloadIndexedDB_def clearIndexedDBCache_def)

text \<open>
  C7, as the code has it. A search on the storage-backed source fetches from
  \<^verbatim>\<open>indexedDB\<close> exactly when the cache is invalid for the requested identity (no
  snapshot, or a tag that differs from the requested pair); with a snapshot tagged
  with that identity it searches the snapshot and leaves the index and \<^verbatim>\<open>indexedDB\<close>
  as they were. If the cache is invalid and the fetch succeeds, the cache is valid
  afterwards, a second search for the same identity searches what was fetched and
  the two searches have fetched once; with \<^verbatim>\<open>clearIndexedDBCache\<close> between them the
  second search fetches again. If the cache is invalid and the fetch fails, the search
  returns the empty list and leaves the cache cleared, it is still invalid for the
  identity, and a second search for the same identity fetches again: the two have
  fetched twice.
\<close>

theorem storage_search_fetches:
  "fetch_count (snd (snd (loadAndSearchFromIndexedDB score (Some d) (Some st) q k flt idb s))) =
     fetch_count idb + (if isCacheValid d st s then 0 else 1) \<and>
   (\<forall>cache. isCacheValid d st s \<longrightarrow> indexedDBDataCache s = Some cache \<longrightarrow>
      loadAndSearchFromIndexedDB score (Some d) (Some st) q k flt idb s =
        (Inr (search_stored score q k flt cache), s, idb)) \<and>
   (\<forall>fetched. \<not> isCacheValid d st s \<longrightarrow> fst (fetchObjects d st idb) = Inr fetched \<longrightarrow>
      (let first = loadAndSearchFromIndexedDB score (Some d) (Some st) q k flt idb s;
           second = loadAndSearchFromIndexedDB score (Some d) (Some st) q' k' flt'
                      (snd (snd first)) (fst (snd first));
           refetch = loadAndSearchFromIndexedDB score (Some d) (Some st) q' k' flt'
                      (snd (snd first)) (clearIndexedDBCache (fst (snd first)))
       in isCacheValid d st (fst (snd first)) \<and>
          fetch_count (snd (snd second)) = fetch_count idb + 1 \<and>
          fst second = Inr (search_stored score q' k' flt' fetched) \<and>
          fetch_count (snd (snd refetch)) = fetch_count idb + 2)) \<and>
   (\<forall>e. \<not> isCacheValid d st s \<longrightarrow> fst (fetchObjects d st idb) = Inl e \<longrightarrow>
      (let first = loadAndSearchFromIndexedDB score (Some d) (Some st) q k flt idb s;
           second = loadAndSearchFromIndexedDB score (Some d) (Some st) q' k' flt'
                      (snd (snd first)) (fst (snd first))
       in fst first = Inr [] \<and>
          fst (snd first) = clearIndexedDBCache s \<and>
          indexedDBDataCache (fst (snd first)) = None \<and>
          \<not> isCacheValid d st (fst (snd first)) \<and>
          fetch_count (snd (snd second)) = fetch_count idb + 2))"
proof (intro conjI allI impI)
  show "fetch_count (snd (snd (loadAndSearchFromIndexedDB score (Some d) (Some st) q k flt idb s))) =
     fetch_count idb + (if isCacheValid d st s then 0 else 1)"
  proof (cases "isCacheValid d st s")
    case True
    then obtain cache where "indexedDBDataCache s = Some cache" by (auto simp: isCacheValid_def)
    with True show ?thesis by (simp add: load_valid)
  next
    case False
    then show ?thesis by (simp add: load_invalid_count)
  qed
next
  fix cache
  assume "isCacheValid d st s" "indexedDBDataCache s = Some cache"
  then show "loadAndSearchFromIndexedDB score (Some d) (Some st) q k flt idb s =
        (Inr (search_stored score q k flt cache), s, idb)"
    by (rule load_valid)
next
  fix fetched
  assume inv: "\<not> isCacheValid d st s" and ok: "fst (fetchObjects d st idb) = Inr fetched"
  let ?s1 = "(clearIndexedDBCache s)\<lparr>indexedDBDataCache := Some fetched, preloadedDBName := Some d,
        preloadedObjectStoreName := Some st\<rparr>"
  let ?idb1 = "snd (fetchObjects d st idb)"
  have first: "loadAndSearchFromIndexedDB score (Some d) (Some st) q k flt idb s =
     (Inr (search_stored score q k flt fetched), ?s1, ?idb1)"
    by (rule load_invalid_success [OF inv ok])
  have valid: "isCacheValid d st ?s1" by (simp add: isCacheValid_def)
  have cache: "indexedDBDataCache ?s1 = Some fetched" by simp
  have c1: "fetch_count ?idb1 = fetch_count idb + 1" by (rule fetch_count_fetchObjects)
  have cleared: "\<not> isCacheValid d st (clearIndexedDBCache ?s1)"
    by (simp add: isCacheValid_def clearIndexedDBCache_def)
  show "let first = loadAndSearchFromIndexedDB score (Some d) (Some st) q k flt idb s;
           second = loadAndSearchFromIndexedDB score (Some d) (Some st) q' k' flt'
                      (snd (snd first)) (fst (snd first));
           refetch = loadAndSearchFromIndexedDB score (Some d) (Some st) q' k' flt'
                      (snd (snd first)) (clearIndexedDBCache (fst (snd first)))
       in isCacheValid d st (fst (snd first)) \<and>
          fetch_count (snd (snd second)) = fetch_count idb + 1 \<and>
          fst second = Inr (search_stored score q' k' flt' fetched) \<and>
          fetch_count (snd (snd refetch)) = fetch_count idb + 2"
    unfolding Let_def first
    using valid c1 load_valid [OF valid cache, of score q' k' flt' ?idb1]
      load_invalid_count [OF cleared, of score q' k' flt' ?idb1]
    by simp
next
  fix e
  assume inv: "\<not> isCacheValid d st s" and bad: "fst (fetchObjects d st idb) = Inl e"
  let ?s1 = "clearIndexedDBCache s"
  let ?idb1 = "snd (fetchObjects d st idb)"
  have first: "loadAndSearchFromIndexedDB score (Some d) (Some st) q k flt idb s =
     (Inr [], ?s1, ?idb1)"
    by (rule load_invalid_failure [OF inv bad])
  have none: "indexedDBDataCache ?s1 = None" by (simp add: clearIndexedDBCache_def)
  then have still: "\<not> isCacheValid d st ?s1" by (simp add: isCacheValid_def)
  have c1: "fetch_count ?idb1 = fetch_count idb + 1" by (rule fetch_count_fetchObjects)
  show "let first = loadAndSearchFromIndexedDB score (Some d) (Some st) q k flt idb s;
           second = loadAndSearchFromIndexedDB score (Some d) (Some st) q' k' flt'
                      (snd (snd first)) (fst (snd first))
       in fst first = Inr [] \<and>
          fst (snd first) = clearIndexedDBCache s \<and>
          indexedDBDataCache (fst (snd first)) = None \<and>
          \<not> isCacheValid d st (fst (snd first)) \<and>
          fetch_count (snd (snd second)) = fetch_count idb + 2"
    unfolding Let_def first
    using none still c1 load_invalid_count [OF still, of score q' k' flt' ?idb1]
    by simp
qed

theorem storage_search_fetches_witness:
  "\<not> isCacheValid ''clientVectorDB'' ''ClientEmbeddingStore'' new_index \<and>
   fst (fetchObjects ''clientVectorDB'' ''ClientEmbeddingStore'' one_record_store) = Inr [rec1] \<and>
   fetch_count (snd (snd (loadAndSearchFromIndexedDB cosineSimilarity (Some ''clientVectorDB'') (Some ''ClientEmbeddingStore'') [Num 1] 3 []
        (snd (snd (loadAndSearchFromIndexedDB cosineSimilarity (Some ''clientVectorDB'') (Some ''ClientEmbeddingStore'') [Num 1] 3 [] one_record_store new_index)))
        (fst (snd (loadAndSearchFromIndexedDB cosineSimilarity (Some ''clientVectorDB'') (Some ''ClientEmbeddingStore'') [Num 1] 3 [] one_record_store new_index)))))) = 1 \<and>
   fst (fetchObjects ''clientVectorDB'' ''ClientEmbeddingStore'' unreadable_store) = Inl FetchFailed \<and>
   fst (loadAndSearchFromIndexedDB cosineSimilarity (Some ''clientVectorDB'') (Some ''ClientEmbeddingStore'') [Num 1] 3 [] unreadable_store new_index) = Inr [] \<and>
   \<not> isCacheValid ''clientVectorDB'' ''ClientEmbeddingStore''
     (fst (snd (loadAndSearchFromIndexedDB cosineSimilarity (Some ''clientVectorDB'') (Some ''ClientEmbeddingStore'') [Num 1] 3 [] unreadable_store new_index)))"
proof -
  have v: "\<not> isCacheValid ''clientVectorDB'' ''ClientEmbeddingStore'' new_index"
    by (simp add: isCacheValid_def new_index_def)
  have f: "fst (fetchObjects ''clientVectorDB'' ''ClientEmbeddingStore'' one_record_store) = Inr [rec1]"
    by (simp add: fetchObjects_def one_record_store_def Let_def)
  have g: "fst (fetchObjects ''clientVectorDB'' ''ClientEmbeddingStore'' unreadable_store) = Inl FetchFailed"
    by (simp add: fetchObjects_def unreadable_store_def Let_def)
  have z: "fetch_count one_record_store = 0" by (simp add: fetch_count_def one_record_store_def)
  from storage_search_fetches [of cosineSimilarity "''clientVectorDB''" "''ClientEmbeddingStore''" "[Num 1]" 3 "[]"
      one_record_store new_index "[Num 1]" 3 "[]"] v f z
  have one: "fetch_count (snd (snd (loadAndSearchFromIndexedDB cosineSimilarity (Some ''clientVectorDB'') (Some ''ClientEmbeddingStore'') [Num 1] 3 []
        (snd (snd (loadAndSearchFromIndexedDB cosineSimilarity (Some ''clientVectorDB'') (Some ''ClientEmbeddingStore'') [Num 1] 3 [] one_record_store new_index)))
        (fst (snd (loadAndSearchFromIndexedDB cosineSimilarity (Some ''clientVectorDB'') (Some ''ClientEmbeddingStore'') [Num 1] 3 [] one_record_store new_index)))))) = 1"
    by (simp add: Let_def)
  from storage_search_fetches [of cosineSimilarity "''clientVectorDB''" "''ClientEmbeddingStore''" "[Num 1]" 3 "[]"
      unreadable_store new_index "[Num 1]" 3 "[]"] v g
  have two: "fst (loadAndSearchFromIndexedDB cosineSimilarity (Some ''clientVectorDB'') (Some ''ClientEmbeddingStore'') [Num 1] 3 [] unreadable_store new_index) = Inr [] \<and>
   \<not> isCacheValid ''clientVectorDB'' ''ClientEmbeddingStore''
     (fst (snd (loadAndSearchFromIndexedDB cosineSimilarity (Some ''clientVectorDB'') (Some ''ClientEmbeddingStore'') [Num 1] 3 [] unreadable_store new_index)))"
    unfolding Let_def by blast
  from v f g one two show ?thesis by simp
qed

text \<open>
  Where C7 as stated fails: when the read fails, the failed preload leaves the cache
  cleared, so each of two consecutive searches for the same identity fetches, and the
  two have fetched twice.
\<close>

theorem storage_search_fetches_counterexample:
  "fetch_count unreadable_store = 0 \<and>
   \<not> isCacheValid ''clientVectorDB'' ''ClientEmbeddingStore'' new_index \<and>
   fetch_count (snd (snd (loadAndSearchFromIndexedDB cosineSimilarity (Some ''clientVectorDB'') (Some ''ClientEmbeddingStore'') [Num 1] 3 []
        (snd (snd (loadAndSearchFromIndexedDB cosineSimilarity (Some ''clientVectorDB'') (Some ''ClientEmbeddingStore'') [Num 1] 3 [] unreadable_store new_index)))
        (fst (snd (loadAndSearchFromIndexedDB cosineSimilarity (Some ''clientVectorDB'') (Some ''ClientEmbeddingStore'') [Num 1] 3 [] unreadable_store new_index)))))) = 2"
  by (simp add: loadAndSearchFromIndexedDB_def preloadForSearch_def preloadIndexedDB_def fetchObjects_def
      unreadable_store_def new_index_def isCacheValid_def default_arg_def clearIndexedDBCache_def
      fetch_count_def Let_def)

section \<open>The queue keeps its size\<close>

lemma length_add_loop: "length (add_loop compare v a i) = length a"
  by (induction compare v a i rule: add_loop.induct)
     (subst add_loop.simps, simp add: Let_def)

lemma length_fpq_add: "length (fpq_add compare v a) = length a + 1"
  by (simp add: fpq_add_def length_add_loop)

lemma length_percolateDown_loop: "length (percolateDown_loop compare ai a i) = length a"
  by (induction compare ai a i rule: percolateDown_loop.induct)
     (subst percolateDown_loop.simps, simp add: Let_def)

lemma length_poll: "length (snd (poll compare a)) = length a - 1"
  by (simp add: poll_def percolateDown_def length_percolateDown_loop Let_def)

lemma length_drain: "length (drain compare a) = length a"
proof (induction compare a rule: drain.induct)
  case (1 compare a)
  show ?case
  proof (cases "length a = 0")
    case True
    then show ?thesis by (subst drain.simps) simp
  next
    case False
    obtain x a' where p: "poll compare a = (x, a')" by (cases "poll compare a")
    with False obtain y where x: "x = Some y" by (auto simp: poll_def Let_def split: if_splits)
    from p length_poll [of compare a] have "length a' = length a - 1" by simp
    with "1.IH" [OF False p [symmetric] x] False p x show ?thesis
      by (subst drain.simps) simp
  qed
qed

lemma length_offer:
  "length (offer k c q) = (if int (length q) < k then length q + 1 else length q)"
  by (cases q) (auto simp: offer_def peek_def length_fpq_add length_poll)

lemma length_fold_offer:
  assumes "\<And>x q. length (step x q) = (if P x then length (offer k (mk x) q) else length q)"
    and "length q \<le> nat k"
  shows "length (fold step xs q) = min (nat k) (length q + length (filter P xs))"
  using assms(2)
proof (induction xs arbitrary: q)
  case Nil
  then show ?case by simp
next
  case (Cons x xs)
  have "length (step x q) \<le> nat k" using Cons.prems by (auto simp: assms(1) length_offer)
  from Cons.IH [OF this] Cons.prems show ?case
    by (auto simp: assms(1) length_offer)
qed

lemma length_search_local:
  "length (search_local score q k flt objs) = min (nat k) (length (filter (matches flt) objs))"
proof -
  have "length (fold (local_step score q k flt) objs []) =
        min (nat k) (length ([] :: SearchResult list) + length (filter (matches flt) objs))"
    by (rule length_fold_offer [where mk = "\<lambda>obj. \<lparr>similarity = score q (getProp obj ''embedding''), object = obj\<rparr>"])
       (simp_all add: local_step_def)
  then show ?thesis by (simp add: search_local_def length_drain)
qed

section \<open>The queue keeps heap order\<close>

lemma parent_less: "0 < j \<Longrightarrow> (j - 1) div 2 < (j::nat)"
  by arith

lemma up_inv_step:
  assumes inv: "up_inv key v a i" and pos: "0 < i" and lt: "key v < key (a ! ((i - 1) div 2))"
  shows "up_inv key v (a[i := a ! ((i - 1) div 2)]) ((i - 1) div 2)"
proof -
  let ?p = "(i - 1) div 2"
  let ?a = "a[i := a ! ?p]"
  from inv have il: "i < length a"
    and edges: "\<And>j. 0 < j \<Longrightarrow> j < length a \<Longrightarrow> j \<noteq> i \<Longrightarrow> key (a ! ((j - 1) div 2)) \<le> key (a ! j)"
    and kids: "\<And>c. 0 < c \<Longrightarrow> c < length a \<Longrightarrow> (c - 1) div 2 = i \<Longrightarrow>
                 key v \<le> key (a ! c) \<and> key (a ! ?p) \<le> key (a ! c)"
    using pos by (auto simp: up_inv_def)
  have pi: "?p < i" using pos by (rule parent_less)
  have pl: "?p < length ?a" using pi il by simp
  have e: "key (?a ! ((j - 1) div 2)) \<le> key (?a ! j)" if "0 < j" "j < length ?a" "j \<noteq> ?p" for j
  proof (cases "j = i")
    case True
    then show ?thesis using il pi by simp
  next
    case ji: False
    show ?thesis
    proof (cases "(j - 1) div 2 = i")
      case True
      then show ?thesis using kids [of j] that il ji by simp
    next
      case False
      then show ?thesis using edges [of j] that ji by simp
    qed
  qed
  have k: "key v \<le> key (?a ! c) \<and> (0 < ?p \<longrightarrow> key (?a ! ((?p - 1) div 2)) \<le> key (?a ! c))"
    if "0 < c" "c < length ?a" "(c - 1) div 2 = ?p" for c
  proof -
    have pp: "0 < ?p \<Longrightarrow> key (a ! ((?p - 1) div 2)) \<le> key (a ! ?p)"
      using edges [of ?p] pi il by simp
    have ppi: "(?p - 1) div 2 \<noteq> i" using pi by arith
    show ?thesis
    proof (cases "c = i")
      case True
      then show ?thesis using lt il pp ppi by simp
    next
      case False
      then have "key (a ! ?p) \<le> key (a ! c)" using edges [of c] that by simp
      then show ?thesis using lt that False pp ppi by auto
    qed
  qed
  show ?thesis unfolding up_inv_def using pl e k by blast
qed

lemma up_inv_done:
  assumes inv: "up_inv key v a i" and stop: "i = 0 \<or> key (a ! ((i - 1) div 2)) \<le> key v"
  shows "is_heap key (a[i := v])"
  unfolding is_heap_def
proof (intro allI impI)
  fix j
  assume j: "0 < j \<and> j < length (a[i := v])"
  from inv have il: "i < length a"
    and edges: "\<And>j. 0 < j \<Longrightarrow> j < length a \<Longrightarrow> j \<noteq> i \<Longrightarrow> key (a ! ((j - 1) div 2)) \<le> key (a ! j)"
    and kids: "\<And>c. 0 < c \<Longrightarrow> c < length a \<Longrightarrow> (c - 1) div 2 = i \<Longrightarrow> key v \<le> key (a ! c)"
    by (auto simp: up_inv_def)
  have pj: "(j - 1) div 2 < j" using j parent_less by blast
  show "key (a[i := v] ! ((j - 1) div 2)) \<le> key (a[i := v] ! j)"
  proof (cases "j = i")
    case True
    then show ?thesis using stop j il pj by auto
  next
    case ji: False
    show ?thesis
    proof (cases "(j - 1) div 2 = i")
      case True
      then show ?thesis using kids [of j] j il ji by simp
    next
      case False
      then show ?thesis using edges [of j] j ji by simp
    qed
  qed
qed

lemma add_loop_heap:
  "ordered_on S compare key \<Longrightarrow> v \<in> S \<Longrightarrow> set a \<subseteq> S \<Longrightarrow> up_inv key v a i \<Longrightarrow>
   is_heap key (add_loop compare v a i)"
proof (induction compare v a i rule: add_loop.induct)
  case (1 compare v a i)
  let ?p = "(i - 1) div 2"
  from "1.prems" have il: "i < length a" by (simp add: up_inv_def)
  show ?case
  proof (cases "0 < i")
    case False
    then show ?thesis using up_inv_done [OF "1.prems"(4)] by (subst add_loop.simps) simp
  next
    case pos: True
    then have "?p < length a" using il parent_less [of i] by simp
    then have pS: "a ! ?p \<in> S" using "1.prems"(3) by auto
    then have cmp: "compare v (a ! ?p) = (key v < key (a ! ?p))"
      using "1.prems"(1,2) by (simp add: ordered_on_def)
    show ?thesis
    proof (cases "compare v (a ! ?p)")
      case False
      then have "key (a ! ?p) \<le> key v" using cmp by simp
      then show ?thesis using up_inv_done [OF "1.prems"(4)] pos False
        by (subst add_loop.simps) (simp add: Let_def)
    next
      case True
      then have lt: "key v < key (a ! ?p)" using cmp by simp
      have sub: "set (a[i := a ! ?p]) \<subseteq> S"
        using "1.prems"(3) pS set_update_subset_insert [of a i "a ! ?p"] by auto
      have "is_heap key (add_loop compare v (a[i := a ! ?p]) ?p)"
        using "1.IH" [OF pos refl refl _ "1.prems"(1,2) sub up_inv_step [OF "1.prems"(4) pos lt]] True
        by simp
      then show ?thesis using pos True by (subst add_loop.simps) (simp add: Let_def)
    qed
  qed
qed

lemma mset_add_loop:
  "i < length a \<Longrightarrow> mset (add_loop compare v a i) = mset (a[i := v])"
proof (induction compare v a i rule: add_loop.induct)
  case (1 compare v a i)
  let ?p = "(i - 1) div 2"
  show ?case
  proof (cases "0 < i \<and> compare v (a ! ?p)")
    case False
    then show ?thesis by (subst add_loop.simps) (auto simp: Let_def)
  next
    case True
    then have pi: "?p < i" using parent_less by blast
    then have pl: "?p < length (a[i := a ! ?p])" using "1.prems" by simp
    have "mset (add_loop compare v (a[i := a ! ?p]) ?p) = mset (a[i := a ! ?p, ?p := v])"
      using "1.IH" [OF _ refl refl _ pl] True by simp
    also have "\<dots> = mset (a[i := v])"
      using pi "1.prems" by (simp add: mset_update nth_list_update)
    finally show ?thesis using True by (subst add_loop.simps) (simp add: Let_def)
  qed
qed

lemma up_inv_init:
  assumes "is_heap key a"
  shows "up_inv key v (a @ [v]) (length a)"
  unfolding up_inv_def
proof (intro conjI allI impI)
  show "length a < length (a @ [v])" by simp
next
  fix j
  assume j: "0 < j \<and> j < length (a @ [v]) \<and> j \<noteq> length a"
  then have "j < length a" by simp
  moreover then have "(j - 1) div 2 < length a" by arith
  ultimately show "key ((a @ [v]) ! ((j - 1) div 2)) \<le> key ((a @ [v]) ! j)"
    using assms j by (simp add: is_heap_def nth_append)
next
  fix c
  assume c: "0 < c \<and> c < length (a @ [v]) \<and> (c - 1) div 2 = length a"
  then have "(c - 1) div 2 < c" using parent_less by blast
  with c have False by simp
  then show "key v \<le> key ((a @ [v]) ! c)" ..
next
  fix c
  assume c: "0 < c \<and> c < length (a @ [v]) \<and> (c - 1) div 2 = length a"
  then have "(c - 1) div 2 < c" using parent_less by blast
  with c have False by simp
  then show "key ((a @ [v]) ! ((length a - 1) div 2)) \<le> key ((a @ [v]) ! c)" ..
qed

lemma fpq_add_heap:
  assumes "ordered_on S compare key" "v \<in> S" "set a \<subseteq> S" "is_heap key a"
  shows "is_heap key (fpq_add compare v a)"
  unfolding fpq_add_def
  using assms by (intro add_loop_heap [where S = S] up_inv_init) auto

lemma mset_fpq_add: "mset (fpq_add compare v a) = add_mset v (mset a)"
  by (simp add: fpq_add_def mset_add_loop)

lemma child_cases: "0 < c \<Longrightarrow> (c - 1) div 2 = i \<longleftrightarrow> c = 2 * i + 1 \<or> c = 2 * i + 2" for c i :: nat
  by arith

lemma down_inv_step:
  assumes inv: "down_inv key ai a i"
    and l': "l' = 2 * i + 1 \<or> l' = 2 * i + 2" "l' < length a"
    and least: "\<And>c. 0 < c \<Longrightarrow> c < length a \<Longrightarrow> (c - 1) div 2 = i \<Longrightarrow> key (a ! l') \<le> key (a ! c)"
    and lt: "key (a ! l') < key ai"
  shows "down_inv key ai (a[i := a ! l']) l'"
proof -
  let ?a = "a[i := a ! l']"
  from inv have il: "i < length a"
    and edges: "\<And>j. 0 < j \<Longrightarrow> j < length a \<Longrightarrow> j \<noteq> i \<Longrightarrow> (j - 1) div 2 \<noteq> i \<Longrightarrow>
                   key (a ! ((j - 1) div 2)) \<le> key (a ! j)"
    and grand: "\<And>c. 0 < c \<Longrightarrow> c < length a \<Longrightarrow> (c - 1) div 2 = i \<Longrightarrow> 0 < i \<Longrightarrow>
                   key (a ! ((i - 1) div 2)) \<le> key (a ! c)"
    by (auto simp: down_inv_def)
  have pl: "(l' - 1) div 2 = i" and l0: "0 < l'" and li: "i < l'" using l'(1) by auto
  have e: "key (?a ! ((j - 1) div 2)) \<le> key (?a ! j)"
    if j: "0 < j" "j < length ?a" "j \<noteq> l'" "(j - 1) div 2 \<noteq> l'" for j
  proof (cases "j = i")
    case True
    then have "(j - 1) div 2 \<noteq> i" using j(1) parent_less [of j] by simp
    then show ?thesis using True grand [of l'] l' l0 pl il j by simp
  next
    case ji: False
    show ?thesis
    proof (cases "(j - 1) div 2 = i")
      case True
      then show ?thesis using least [of j] j il ji by simp
    next
      case False
      then show ?thesis using edges [of j] j ji by simp
    qed
  qed
  have g: "key (?a ! ((l' - 1) div 2)) \<le> key (?a ! c)"
    if c: "0 < c" "c < length ?a" "(c - 1) div 2 = l'" for c
  proof -
    have "c \<noteq> i" using c(1,3) li parent_less [of c] by simp
    moreover have "key (a ! l') \<le> key (a ! c)" using edges [of c] c li \<open>c \<noteq> i\<close> by simp
    ultimately show ?thesis using pl il by simp
  qed
  have "key (?a ! ((l' - 1) div 2)) \<le> key ai" using pl il lt by simp
  then show ?thesis unfolding down_inv_def using l'(2) e g by simp
qed

lemma down_inv_done:
  assumes inv: "down_inv key ai a i"
    and stop: "\<And>c. 0 < c \<Longrightarrow> c < length a \<Longrightarrow> (c - 1) div 2 = i \<Longrightarrow> key ai \<le> key (a ! c)"
  shows "is_heap key (a[i := ai])"
  unfolding is_heap_def
proof (intro allI impI)
  fix j
  assume j: "0 < j \<and> j < length (a[i := ai])"
  from inv have il: "i < length a"
    and edges: "\<And>j. 0 < j \<Longrightarrow> j < length a \<Longrightarrow> j \<noteq> i \<Longrightarrow> (j - 1) div 2 \<noteq> i \<Longrightarrow>
                   key (a ! ((j - 1) div 2)) \<le> key (a ! j)"
    and into: "0 < i \<Longrightarrow> key (a ! ((i - 1) div 2)) \<le> key ai"
    by (auto simp: down_inv_def)
  show "key (a[i := ai] ! ((j - 1) div 2)) \<le> key (a[i := ai] ! j)"
  proof (cases "j = i")
    case True
    then have "(j - 1) div 2 \<noteq> i" using j parent_less [of j] by simp
    then show ?thesis using True into il j by simp
  next
    case ji: False
    show ?thesis
    proof (cases "(j - 1) div 2 = i")
      case True
      then show ?thesis using stop [of j] j il ji by simp
    next
      case False
      then show ?thesis using edges [of j] j ji by simp
    qed
  qed
qed

lemma percolateDown_loop_heap:
  "ordered_on S compare key \<Longrightarrow> ai \<in> S \<Longrightarrow> set a \<subseteq> S \<Longrightarrow> down_inv key ai a i \<Longrightarrow>
   is_heap key (percolateDown_loop compare ai a i)"
proof (induction compare ai a i rule: percolateDown_loop.induct)
  case (1 compare ai a i)
  note ord = "1.prems"(1) and aiS = "1.prems"(2) and sub = "1.prems"(3) and inv = "1.prems"(4)
  have cmp: "compare x y = (key x < key y)" if "x \<in> S" "y \<in> S" for x y
    using ord that by (simp add: ordered_on_def)
  show ?case
  proof (cases "i < length a div 2")
    case leaf: False
    have "is_heap key (a[i := ai])"
    proof (rule down_inv_done [OF inv])
      fix c assume "0 < c" "c < length a" "(c - 1) div 2 = i"
      with leaf have False by arith
      then show "key ai \<le> key (a ! c)" ..
    qed
    then show ?thesis using leaf by (subst percolateDown_loop.simps) simp
  next
    case inner: True
    define l where "l = 2 * i + 1"
    define r where "r = l + 1"
    define l' where "l' = (if r < length a \<and> compare (a ! r) (a ! l) then r else l)"
    have step: "percolateDown_loop compare ai a i =
        (if \<not> compare (a ! l') ai then a[i := ai]
         else percolateDown_loop compare ai (a[i := a ! l']) l')"
      using inner by (subst percolateDown_loop.simps, unfold Let_def l'_def r_def l_def) simp
    have ll: "l < length a" using inner by (simp add: l_def)
    have l'l: "l' < length a" using ll by (simp add: l'_def)
    have l'c: "l' = 2 * i + 1 \<or> l' = 2 * i + 2" by (simp add: l'_def l_def r_def)
    have lS: "a ! l \<in> S" using sub ll by auto
    have l'S: "a ! l' \<in> S" using sub l'l by auto
    have least: "key (a ! l') \<le> key (a ! c)" if c: "0 < c" "c < length a" "(c - 1) div 2 = i" for c
    proof -
      from c child_cases [of c i] have "c = l \<or> c = r" by (simp add: l_def r_def)
      then show ?thesis
      proof
        assume "c = l"
        moreover have "r < length a \<Longrightarrow> a ! r \<in> S" using sub by auto
        ultimately show ?thesis using cmp [OF _ lS, of "a ! r"] by (auto simp: l'_def)
      next
        assume cr: "c = r"
        then have "a ! r \<in> S" using sub c by auto
        then show ?thesis using cmp [OF _ lS, of "a ! r"] cr c by (auto simp: l'_def)
      qed
    qed
    show ?thesis
    proof (cases "compare (a ! l') ai")
      case False
      then have "key ai \<le> key (a ! l')" using cmp [OF l'S aiS] by simp
      then have "is_heap key (a[i := ai])"
        using least by (intro down_inv_done [OF inv]) (rule order_trans)
      then show ?thesis using False by (simp add: step)
    next
      case True
      then have lt: "key (a ! l') < key ai" using cmp [OF l'S aiS] by simp
      have sub': "set (a[i := a ! l']) \<subseteq> S"
        using sub l'S set_update_subset_insert [of a i "a ! l'"] by auto
      have "is_heap key (percolateDown_loop compare ai (a[i := a ! l']) l')"
        using "1.IH" [OF inner l_def r_def l'_def refl _ ord aiS sub'
            down_inv_step [OF inv l'c l'l least lt]] True
        by simp
      then show ?thesis using True by (simp add: step)
    qed
  qed
qed

lemma mset_percolateDown_loop:
  "i < length a \<Longrightarrow> mset (percolateDown_loop compare ai a i) = mset (a[i := ai])"
proof (induction compare ai a i rule: percolateDown_loop.induct)
  case (1 compare ai a i)
  define l where "l = 2 * i + 1"
  define r where "r = l + 1"
  define l' where "l' = (if r < length a \<and> compare (a ! r) (a ! l) then r else l)"
  have step: "percolateDown_loop compare ai a i =
      (if i < length a div 2
       then (if \<not> compare (a ! l') ai then a[i := ai]
             else percolateDown_loop compare ai (a[i := a ! l']) l')
       else a[i := ai])"
    by (subst percolateDown_loop.simps, unfold Let_def l'_def r_def l_def) simp
  show ?case
  proof (cases "i < length a div 2 \<and> compare (a ! l') ai")
    case False
    then show ?thesis by (auto simp: step)
  next
    case True
    then have l'l: "l' < length a" and il': "i < l'" by (auto simp: l'_def l_def r_def)
    have "mset (percolateDown_loop compare ai (a[i := a ! l']) l') = mset (a[i := a ! l', l' := ai])"
      using "1.IH" [OF _ l_def r_def l'_def refl] True l'l by simp
    also have "\<dots> = mset (a[i := ai])"
      using il' l'l "1.prems" by (simp add: mset_update nth_list_update)
    finally show ?thesis using True by (simp add: step)
  qed
qed

lemma heap_root_least:
  assumes "is_heap key a"
  shows "i < length a \<Longrightarrow> key (a ! 0) \<le> key (a ! i)"
proof (induction i rule: less_induct)
  case (less i)
  show ?case
  proof (cases "i = 0")
    case True
    then show ?thesis by simp
  next
    case False
    then have p: "(i - 1) div 2 < i" using parent_less by simp
    with less.prems have "key (a ! 0) \<le> key (a ! ((i - 1) div 2))" by (intro less.IH) auto
    also have "\<dots> \<le> key (a ! i)" using assms False less.prems by (simp add: is_heap_def)
    finally show ?thesis .
  qed
qed

lemma poll_heap:
  assumes ord: "ordered_on S compare key" and sub: "set a \<subseteq> S" and heap: "is_heap key a"
    and ne: "a \<noteq> []"
  shows "fst (poll compare a) = Some (a ! 0)"
    and "is_heap key (snd (poll compare a))"
    and "mset (snd (poll compare a)) = mset a - {#a ! 0#}"
proof -
  show "fst (poll compare a) = Some (a ! 0)" using ne by (simp add: poll_def Let_def)
  show "is_heap key (snd (poll compare a))"
  proof (cases "length a > 1")
    case False
    with ne have "snd (poll compare a) = []" by (cases a) (auto simp: poll_def Let_def)
    then show ?thesis by (simp add: is_heap_def)
  next
    case True
    let ?a0 = "(butlast a)[0 := last a]"
    have len: "length ?a0 = length a - 1" by simp
    have nth: "?a0 ! j = a ! j" if "0 < j" "j < length a - 1" for j
      using that by (simp add: nth_butlast)
    have a00: "?a0 ! 0 = last a" using True by simp
    have lS: "last a \<in> S" using sub ne last_in_set by auto
    have sub0: "set ?a0 \<subseteq> S"
      using sub lS set_update_subset_insert [of "butlast a" 0 "last a"] in_set_butlastD [of _ a]
      by auto
    have "down_inv key (last a) ?a0 0"
      unfolding down_inv_def
    proof (intro conjI allI impI)
      show "0 < length ?a0" using True by simp
    next
      fix j
      assume j: "0 < j \<and> j < length ?a0 \<and> j \<noteq> 0 \<and> (j - 1) div 2 \<noteq> 0"
      then have "(j - 1) div 2 < j" using parent_less by blast
      with j have "?a0 ! ((j - 1) div 2) = a ! ((j - 1) div 2)" "?a0 ! j = a ! j"
        using nth by auto
      moreover have "j < length a" using j by auto
      then have "key (a ! ((j - 1) div 2)) \<le> key (a ! j)"
        using heap [unfolded is_heap_def, rule_format, of j] j by simp
      ultimately show "key (?a0 ! ((j - 1) div 2)) \<le> key (?a0 ! j)" by simp
    qed simp_all
    from percolateDown_loop_heap [OF ord lS sub0 this]
    show ?thesis using True ne by (simp add: poll_def Let_def percolateDown_def a00)
  qed
  show "mset (snd (poll compare a)) = mset a - {#a ! 0#}"
  proof (cases "length a > 1")
    case False
    with ne obtain x where "a = [x]" by (cases a) auto
    then show ?thesis by (simp add: poll_def Let_def)
  next
    case True
    let ?a0 = "(butlast a)[0 := last a]"
    have a00: "?a0 ! 0 = last a" using True by simp
    have b0: "butlast a ! 0 = a ! 0" using True by (simp add: nth_butlast)
    have "mset (snd (poll compare a)) = mset (?a0[0 := last a])"
      using True ne mset_percolateDown_loop [of 0 ?a0 compare "last a"]
      by (simp add: poll_def Let_def percolateDown_def a00)
    also have "\<dots> = add_mset (last a) (mset (butlast a) - {#a ! 0#})"
      using True by (simp add: mset_update b0)
    also have "\<dots> = add_mset (last a) (mset (butlast a)) - {#a ! 0#}"
    proof -
      have "a ! 0 \<in># mset (butlast a)" using True b0 nth_mem [of 0 "butlast a"] by auto
      then show ?thesis by simp
    qed
    also have "add_mset (last a) (mset (butlast a)) = mset a"
      using ne by (metis append_butlast_last_id mset.simps(2) mset_append add_mset_add_single union_mset_add_mset_right add.right_neutral mset.simps(1))
    finally show ?thesis .
  qed
qed

lemma drain_sorted:
  "ordered_on S compare key \<Longrightarrow> set a \<subseteq> S \<Longrightarrow> is_heap key a \<Longrightarrow>
   sorted (map key (drain compare a)) \<and> mset (drain compare a) = mset a"
proof (induction compare a rule: drain.induct)
  case (1 compare a)
  show ?case
  proof (cases "length a = 0")
    case True
    then show ?thesis by (subst (1 2) drain.simps) simp
  next
    case False
    then have ne: "a \<noteq> []" by simp
    obtain x a' where p: "poll compare a = (x, a')" by (cases "poll compare a")
    from poll_heap [OF "1.prems"(1,2,3) ne] p
    have x: "x = Some (a ! 0)" and h': "is_heap key a'" and m': "mset a' = mset a - {#a ! 0#}"
      by simp_all
    have a0: "a ! 0 \<in># mset a" using ne by simp
    have sub': "set a' \<subseteq> S"
      using m' "1.prems"(2) by (metis in_diffD set_mset_mset subsetD subsetI)
    from "1.IH" [OF False p [symmetric] x "1.prems"(1) sub' h']
    have s': "sorted (map key (drain compare a'))" and d': "mset (drain compare a') = mset a'"
      by simp_all
    have d: "drain compare a = a ! 0 # drain compare a'"
      using False p x by (subst drain.simps) simp
    have "key (a ! 0) \<le> key y" if "y \<in> set (drain compare a')" for y
    proof -
      from that d' have "y \<in># mset a'" by (metis set_mset_mset)
      with m' have "y \<in> set a" by (metis in_diffD set_mset_mset)
      then obtain i where "i < length a" "a ! i = y" by (auto simp: in_set_conv_nth)
      with heap_root_least [OF "1.prems"(3), of i] show ?thesis by simp
    qed
    moreover have "mset (drain compare a) = mset a"
      using d d' m' a0 by simp
    ultimately show ?thesis using s' d by auto
  qed
qed

lemma ordered_compare_sr: "ordered_on comparable compare_sr score_of"
  unfolding ordered_on_def comparable_def compare_sr_def score_of_def
proof (intro ballI)
  fix x y :: SearchResult
  assume "x \<in> {r. similarity r \<noteq> NaN}" "y \<in> {r. similarity r \<noteq> NaN}"
  then show "js_lt (similarity x) (similarity y) =
     ((case similarity x of Num x \<Rightarrow> x | NaN \<Rightarrow> 0) < (case similarity y of Num x \<Rightarrow> x | NaN \<Rightarrow> 0))"
    by (cases "similarity x"; cases "similarity y") simp_all
qed

lemma offer_cases:
  assumes c: "c \<in> comparable" and q: "queue_ok queue"
  shows "queue_ok (offer k c queue)"
    and "int (length queue) < k \<Longrightarrow> mset (offer k c queue) = add_mset c (mset queue)"
    and "\<not> int (length queue) < k \<Longrightarrow> queue \<noteq> [] \<Longrightarrow> js_gt (similarity c) (similarity (queue ! 0)) \<Longrightarrow>
         mset (offer k c queue) = add_mset c (mset queue - {#queue ! 0#})"
    and "\<not> int (length queue) < k \<Longrightarrow> queue = [] \<or> \<not> js_gt (similarity c) (similarity (queue ! 0)) \<Longrightarrow>
         offer k c queue = queue"
proof -
  note ord = ordered_compare_sr
  from q have h: "is_heap score_of queue" and sub: "set queue \<subseteq> comparable"
    by (simp_all add: queue_ok_def)
  have add_ok: "queue_ok (fpq_add compare_sr c a)" if "is_heap score_of a" "set a \<subseteq> comparable" for a
  proof -
    have "set (fpq_add compare_sr c a) = insert c (set a)"
      using mset_fpq_add [of compare_sr c a] by (metis set_mset_add_mset_insert set_mset_mset)
    with fpq_add_heap [OF ord c that(2,1)] that(2) c show ?thesis by (simp add: queue_ok_def)
  qed
  have poll_ok: "is_heap score_of (snd (poll compare_sr queue)) \<and> set (snd (poll compare_sr queue)) \<subseteq> comparable"
    if "queue \<noteq> []"
  proof -
    from poll_heap(2,3) [OF ord sub h that]
    have "is_heap score_of (snd (poll compare_sr queue))"
      and m: "mset (snd (poll compare_sr queue)) = mset queue - {#queue ! 0#}" by simp_all
    moreover from m sub have "set (snd (poll compare_sr queue)) \<subseteq> comparable"
      by (metis in_diffD set_mset_mset subsetD subsetI)
    ultimately show ?thesis by simp
  qed
  show "queue_ok (offer k c queue)"
  proof (cases "int (length queue) < k")
    case True
    then show ?thesis using add_ok [OF h sub] by (simp add: offer_def)
  next
    case False
    show ?thesis
    proof (cases "queue = []")
      case True
      then show ?thesis using False q by (simp add: offer_def peek_def)
    next
      case ne: False
      with poll_ok add_ok q False show ?thesis by (auto simp: offer_def peek_def)
    qed
  qed
  show "int (length queue) < k \<Longrightarrow> mset (offer k c queue) = add_mset c (mset queue)"
    by (simp add: offer_def mset_fpq_add)
  show "\<not> int (length queue) < k \<Longrightarrow> queue \<noteq> [] \<Longrightarrow> js_gt (similarity c) (similarity (queue ! 0)) \<Longrightarrow>
         mset (offer k c queue) = add_mset c (mset queue - {#queue ! 0#})"
    using poll_heap(3) [OF ord sub h] by (simp add: offer_def peek_def mset_fpq_add)
  show "\<not> int (length queue) < k \<Longrightarrow> queue = [] \<or> \<not> js_gt (similarity c) (similarity (queue ! 0)) \<Longrightarrow>
         offer k c queue = queue"
    by (auto simp: offer_def peek_def)
qed

lemma fold_local_step_offer:
  "fold (local_step score q k flt) objs queue = fold (offer k) (candidates score q flt objs) queue"
  by (induction objs arbitrary: queue) (simp_all add: candidates_def local_step_def)

lemma search_local_offer:
  "search_local score q k flt objs = rev (drain compare_sr (fold (offer k) (candidates score q flt objs) []))"
  by (simp add: search_local_def fold_local_step_offer)

lemma comparable_le:
  assumes "x \<in> comparable" "y \<in> comparable"
  shows "js_ge (similarity y) (similarity x) = (score_of x \<le> score_of y)"
    and "js_gt (similarity y) (similarity x) = (score_of x < score_of y)"
  using assms
  by (cases "similarity x"; cases "similarity y"; simp add: comparable_def score_of_def js_gt_def)+

lemma queue_root_least:
  assumes "queue_ok queue" "y \<in> set queue"
  shows "score_of (queue ! 0) \<le> score_of y"
proof -
  from assms(2) obtain i where i: "i < length queue" "queue ! i = y" by (auto simp: in_set_conv_nth)
  from assms(1) have "is_heap score_of queue" by (simp add: queue_ok_def)
  from heap_root_least [OF this i(1)] i(2) show ?thesis by simp
qed

lemma offer_best:
  assumes c: "c \<in> comparable" and ok: "queue_ok h"
    and P: "P = mset h + D"
    and D: "\<forall>x \<in># D. x \<in> comparable \<and> (\<forall>y \<in> set h. score_of x \<le> score_of y)"
    and fill: "int (length h) < k \<longrightarrow> D = {#}"
  shows "\<exists>D'. add_mset c P = mset (offer k c h) + D' \<and>
           (\<forall>x \<in># D'. x \<in> comparable \<and> (\<forall>y \<in> set (offer k c h). score_of x \<le> score_of y)) \<and>
           (int (length (offer k c h)) < k \<longrightarrow> D' = {#})"
proof (cases "int (length h) < k")
  case True
  with fill have "D = {#}" by simp
  moreover have "mset (offer k c h) = add_mset c (mset h)" using offer_cases(2) [OF c ok True] .
  ultimately show ?thesis using P by (intro exI [where x = "{#}"]) simp
next
  case full: False
  from ok have sub: "set h \<subseteq> comparable" by (simp add: queue_ok_def)
  have len: "length (offer k c h) = length h" using full by (simp add: length_offer)
  show ?thesis
  proof (cases "h \<noteq> [] \<and> js_gt (similarity c) (similarity (h ! 0))")
    case True
    then have ne: "h \<noteq> []" and gt: "js_gt (similarity c) (similarity (h ! 0))" by simp_all
    have r: "h ! 0 \<in> set h" using ne by (cases h) auto
    then have rc: "h ! 0 \<in> comparable" using sub by auto
    have lt: "score_of (h ! 0) < score_of c" using comparable_le(2) [OF rc c] gt by simp
    have m: "mset (offer k c h) = add_mset c (mset h - {#h ! 0#})"
      using offer_cases(3) [OF c ok full ne gt] .
    have mem: "y = c \<or> y \<in> set h" if "y \<in> set (offer k c h)" for y
    proof -
      from that have "y \<in># add_mset c (mset h - {#h ! 0#})" using m by (metis set_mset_mset)
      then show ?thesis by (auto dest: in_diffD)
    qed
    have "add_mset c P = mset (offer k c h) + add_mset (h ! 0) D"
      using P m r by simp
    moreover have "\<forall>x \<in># add_mset (h ! 0) D. x \<in> comparable \<and>
        (\<forall>y \<in> set (offer k c h). score_of x \<le> score_of y)"
    proof (intro ballI conjI)
      fix x assume x: "x \<in># add_mset (h ! 0) D"
      show "x \<in> comparable" using x rc D by auto
      fix y assume y: "y \<in> set (offer k c h)"
      have xr: "score_of x \<le> score_of (h ! 0)" using x D r by auto
      from mem [OF y] show "score_of x \<le> score_of y"
      proof
        assume "y = c"
        then show ?thesis using xr lt by simp
      next
        assume "y \<in> set h"
        then show ?thesis using xr queue_root_least [OF ok] by (meson order_trans)
      qed
    qed
    ultimately show ?thesis using len full by (intro exI [where x = "add_mset (h ! 0) D"]) simp
  next
    case False
    then have same: "offer k c h = h" using offer_cases(4) [OF c ok full] by auto
    have "\<forall>y \<in> set h. score_of c \<le> score_of y"
    proof
      fix y assume y: "y \<in> set h"
      then have ne: "h \<noteq> []" by auto
      then have r: "h ! 0 \<in> set h" by (cases h) auto
      then have rc: "h ! 0 \<in> comparable" using sub by auto
      from False ne have "\<not> js_gt (similarity c) (similarity (h ! 0))" by simp
      then have "score_of c \<le> score_of (h ! 0)" using comparable_le(2) [OF rc c] by simp
      then show "score_of c \<le> score_of y" using queue_root_least [OF ok y] by simp
    qed
    then show ?thesis using P D c same full
      by (intro exI [where x = "add_mset c D"]) auto
  qed
qed

lemma fold_offer_best:
  assumes "set cs \<subseteq> comparable" and "queue_ok h" and "P = mset h + D"
    and "\<forall>x \<in># D. x \<in> comparable \<and> (\<forall>y \<in> set h. score_of x \<le> score_of y)"
    and "int (length h) < k \<longrightarrow> D = {#}"
  shows "queue_ok (fold (offer k) cs h) \<and>
         (\<exists>D'. P + mset cs = mset (fold (offer k) cs h) + D' \<and>
            (\<forall>x \<in># D'. x \<in> comparable \<and> (\<forall>y \<in> set (fold (offer k) cs h). score_of x \<le> score_of y)))"
  using assms
proof (induction cs arbitrary: h P D)
  case Nil
  then show ?case by auto
next
  case (Cons c cs)
  from Cons.prems(1) have c: "c \<in> comparable" and cs: "set cs \<subseteq> comparable" by auto
  from offer_best [OF c Cons.prems(2,3,4,5)] obtain D' where
    D': "add_mset c P = mset (offer k c h) + D'"
      "\<forall>x \<in># D'. x \<in> comparable \<and> (\<forall>y \<in> set (offer k c h). score_of x \<le> score_of y)"
      "int (length (offer k c h)) < k \<longrightarrow> D' = {#}"
    by blast
  have ok: "queue_ok (offer k c h)" using offer_cases(1) [OF c Cons.prems(2)] .
  from Cons.IH [OF cs ok D'] show ?case by (simp add: add.commute add.left_commute)
qed

lemma fold_offer_ok:
  "set cs \<subseteq> comparable \<Longrightarrow> queue_ok h \<Longrightarrow> queue_ok (fold (offer k) cs h)"
  by (induction cs arbitrary: h) (auto simp: offer_cases(1))

lemma candidates_comparable:
  "(\<forall>obj \<in> set objs. matches flt obj \<longrightarrow> score q (getProp obj ''embedding'') \<noteq> NaN) \<Longrightarrow>
   set (candidates score q flt objs) \<subseteq> comparable"
  by (auto simp: candidates_def comparable_def)

lemma search_local_best:
  assumes cmp: "set cands \<subseteq> comparable"
  shows "sorted_wrt (\<lambda>a b. js_ge (similarity a) (similarity b)) (rev (drain compare_sr (fold (offer k) cands [])))"
    and "\<exists>left_out. mset cands = mset (rev (drain compare_sr (fold (offer k) cands []))) + left_out \<and>
           (\<forall>x \<in># left_out. \<forall>y \<in> set (rev (drain compare_sr (fold (offer k) cands []))).
              js_ge (similarity y) (similarity x))"
proof -
  let ?h = "fold (offer k) cands []"
  have e: "queue_ok []" by (simp add: queue_ok_def is_heap_def)
  from fold_offer_best [OF cmp e, of "{#}" "{#}" k] obtain D where
    ok: "queue_ok ?h" and D: "mset cands = mset ?h + D"
      "\<forall>x \<in># D. x \<in> comparable \<and> (\<forall>y \<in> set ?h. score_of x \<le> score_of y)"
    by auto
  from drain_sorted [OF ordered_compare_sr, of ?h] ok
  have s: "sorted (map score_of (drain compare_sr ?h))" and m: "mset (drain compare_sr ?h) = mset ?h"
    by (simp_all add: queue_ok_def)
  from m have set_eq: "set (drain compare_sr ?h) = set ?h" by (metis set_mset_mset)
  with ok have sub: "set (drain compare_sr ?h) \<subseteq> comparable" by (simp add: queue_ok_def)
  have "sorted_wrt (\<lambda>a b. score_of a \<le> score_of b) (drain compare_sr ?h)"
    using s by (simp add: sorted_map)
  then have "sorted_wrt (\<lambda>a b. js_ge (similarity b) (similarity a)) (drain compare_sr ?h)"
  proof (rule sorted_wrt_mono_rel [rotated])
    fix a b
    assume "a \<in> set (drain compare_sr ?h)" "b \<in> set (drain compare_sr ?h)" "score_of a \<le> score_of b"
    with sub comparable_le(1) [of a b] show "js_ge (similarity b) (similarity a)" by auto
  qed
  then show "sorted_wrt (\<lambda>a b. js_ge (similarity a) (similarity b)) (rev (drain compare_sr ?h))"
    by (simp add: sorted_wrt_rev)
  have "\<forall>x \<in># D. \<forall>y \<in> set (rev (drain compare_sr ?h)). js_ge (similarity y) (similarity x)"
  proof (intro ballI)
    fix x y assume x: "x \<in># D" and y: "y \<in> set (rev (drain compare_sr ?h))"
    then have "y \<in> set ?h" using set_eq by simp
    moreover then have "y \<in> comparable" using ok by (auto simp: queue_ok_def)
    ultimately show "js_ge (similarity y) (similarity x)"
      using D(2) x comparable_le(1) [of x y] by auto
  qed
  then show "\<exists>left_out. mset cands = mset (rev (drain compare_sr ?h)) + left_out \<and>
           (\<forall>x \<in># left_out. \<forall>y \<in> set (rev (drain compare_sr ?h)). js_ge (similarity y) (similarity x))"
    using D(1) m by (intro exI [where x = D]) simp
qed

lemma offer_step_rule:
  assumes cmp: "set cands \<subseteq> comparable" and n: "n < length cands"
  shows "let queue = fold (offer k) (take n cands) []; c = cands ! n;
             queue' = fold (offer k) (take (Suc n) cands) []
         in (int (length queue) < k \<longrightarrow> mset queue' = add_mset c (mset queue)) \<and>
            (\<not> int (length queue) < k \<longrightarrow> 0 < k \<longrightarrow>
               (\<forall>x \<in> set queue. js_ge (similarity x) (similarity (queue ! 0))) \<and>
               (js_gt (similarity c) (similarity (queue ! 0)) \<longrightarrow>
                  mset queue' = add_mset c (mset queue - {#queue ! 0#})) \<and>
               (\<not> js_gt (similarity c) (similarity (queue ! 0)) \<longrightarrow> queue' = queue))"
proof -
  let ?q = "fold (offer k) (take n cands) []"
  let ?c = "cands ! n"
  have c: "?c \<in> comparable" using cmp n by auto
  have "set (take n cands) \<subseteq> comparable" using cmp by (meson set_take_subset subset_trans)
  then have ok: "queue_ok ?q" by (intro fold_offer_ok) (simp_all add: queue_ok_def is_heap_def)
  have step: "fold (offer k) (take (Suc n) cands) [] = offer k ?c ?q"
    using n by (simp add: take_Suc_conv_app_nth)
  have sub: "set ?q \<subseteq> comparable" using ok by (simp add: queue_ok_def)
  have least: "js_ge (similarity x) (similarity (?q ! 0))" if "x \<in> set ?q" for x
  proof -
    from that have "?q \<noteq> []" by auto
    then have "?q ! 0 \<in> set ?q" by (cases ?q) auto
    with sub that comparable_le(1) [of "?q ! 0" x] queue_root_least [OF ok that] show ?thesis by auto
  qed
  have ne: "?q \<noteq> []" if "\<not> int (length ?q) < k" "0 < k" using that by auto
  show ?thesis
    unfolding Let_def step
    using offer_cases(2,3,4) [OF c ok, of k] least ne by auto
qed

lemma scores:
  "cosineSimilarity [Num 1, Num 0] (getProp v_north ''embedding'') = Num 0"
  "cosineSimilarity [Num 1, Num 0] (getProp v_zero ''embedding'') = NaN"
  "cosineSimilarity [Num 1, Num 0] (getProp v_east ''embedding'') = Num 1"
  "cosineSimilarity [Num 1, Num 0] (getProp v_west ''embedding'') = Num (-1)"
  by (simp_all add: cosineSimilarity_def cosine_def dot_def norm_vec_def getProp_def
      v_north_def v_zero_def v_east_def v_west_def)

lemma diag_score:
  "cosineSimilarity [Num 1, Num 0] (getProp v_diag ''embedding'') \<noteq> NaN"
  by (simp add: cosineSimilarity_def cosine_def dot_def norm_vec_def getProp_def v_diag_def)

lemma match_all: "matches [] obj"
  by (simp add: matches_def Object_keys_def)

lemma nan_order:
  "search_local cosineSimilarity [Num 1, Num 0] 4 [] [v_north, v_zero, v_east, v_west] =
     [\<lparr>similarity = NaN, object = v_zero\<rparr>, \<lparr>similarity = Num 1, object = v_east\<rparr>,
      \<lparr>similarity = Num (-1), object = v_west\<rparr>, \<lparr>similarity = Num 0, object = v_north\<rparr>]"
  by (simp add: search_local_def local_step_def match_all scores offer_def fpq_add_def
      add_loop.simps drain.simps poll_def percolateDown_def percolateDown_loop.simps peek_def
      compare_sr_def Let_def)

lemma scores_tilt:
  "cosineSimilarity [Num 1, Num 0] (getProp v_tilt ''embedding'') = Num (3 / 5)"
  by (simp add: cosineSimilarity_def cosine_def dot_def norm_vec_def getProp_def v_tilt_def)

lemma nan_evicts:
  "search_local cosineSimilarity [Num 1, Num 0] 4 [] [v_north, v_zero, v_east, v_west, v_tilt] =
     [\<lparr>similarity = NaN, object = v_zero\<rparr>, \<lparr>similarity = Num 1, object = v_east\<rparr>,
      \<lparr>similarity = Num (3 / 5), object = v_tilt\<rparr>, \<lparr>similarity = Num (-1), object = v_west\<rparr>]"
  by (simp add: search_local_def local_step_def match_all scores scores_tilt offer_def fpq_add_def
      add_loop.simps drain.simps poll_def percolateDown_def percolateDown_loop.simps peek_def
      compare_sr_def js_gt_def Let_def)

section \<open>search\<close>

lemma constructor_compass: "constructor (Some [v_north, v_zero, v_east, v_west]) = Inr compass_index"
  by (simp add: constructor_forEach add_def validateAndAdd_def compass_index_def new_index_def
      v_north_def v_zero_def v_east_def v_west_def getProp_def Object_keys_def has_key_def key_in_def
      Object_prototype_def)

lemma constructor_tilt:
  "constructor (Some [v_north, v_zero, v_east, v_west, v_tilt]) = Inr tilt_index"
  by (simp add: constructor_forEach add_def validateAndAdd_def tilt_index_def new_index_def
      v_north_def v_zero_def v_east_def v_west_def v_tilt_def getProp_def Object_keys_def
      has_key_def key_in_def Object_prototype_def)

lemma search_local_source:
  "useStorage options \<noteq> Some UseIndexedDB \<Longrightarrow>
   search score q (Some options) indexedDB s =
     (Inr (search_local score q (or_number (topK options) DEFAULT_TOP_K)
             (default_arg [] (filter_opt options)) (objects s)), s, indexedDB)"
  by (auto simp: search_def default_arg_def Let_def split: option.splits)

text \<open>
  C9. A search called with \<^verbatim>\<open>topK: 0\<close> behaves as one called without \<^verbatim>\<open>topK\<close>, and as
  one called with \<^verbatim>\<open>topK: 3\<close>: \<^verbatim>\<open>options.topK || DEFAULT_TOP_K\<close> replaces 0 by 3. On the
  local source, over a store with at least three records that match the filter, it
  returns three results.
\<close>

theorem topK_zero_is_default:
  "search score q (Some (options\<lparr>topK := Some 0\<rparr>)) indexedDB s =
     search score q (Some (options\<lparr>topK := None\<rparr>)) indexedDB s \<and>
   search score q (Some (options\<lparr>topK := Some 0\<rparr>)) indexedDB s =
     search score q (Some (options\<lparr>topK := Some 3\<rparr>)) indexedDB s \<and>
   (useStorage options \<noteq> Some UseIndexedDB \<longrightarrow>
    3 \<le> length (filter (matches (default_arg [] (filter_opt options))) (objects s)) \<longrightarrow>
    (\<exists>results. fst (search score q (Some (options\<lparr>topK := Some 0\<rparr>)) indexedDB s) = Inr results \<and>
                length results = 3))"
  by (auto simp: search_def or_number_def DEFAULT_TOP_K_def default_arg_def Let_def length_search_local
      split: option.splits)

theorem topK_zero_is_default_witness:
  "useStorage (top_k 0) \<noteq> Some UseIndexedDB \<and>
   3 \<le> length (filter (matches (default_arg [] (filter_opt (top_k 0)))) (objects compass_index)) \<and>
   length (projr (fst (search cosineSimilarity [Num 1, Num 0] (Some (top_k 0)) None compass_index))) = 3"
proof -
  have u: "useStorage (top_k 0) \<noteq> Some UseIndexedDB" by (simp add: top_k_def)
  have m: "3 \<le> length (filter (matches (default_arg [] (filter_opt (top_k 0)))) (objects compass_index))"
    by (simp add: top_k_def default_arg_def match_all compass_index_def)
  have t: "(top_k 0)\<lparr>topK := Some 0\<rparr> = top_k 0" by (simp add: top_k_def)
  from topK_zero_is_default [of cosineSimilarity "[Num 1, Num 0]" "top_k 0" None compass_index,
      THEN conjunct2, THEN conjunct2, rule_format, OF u m] t
  have "\<exists>results. fst (search cosineSimilarity [Num 1, Num 0] (Some (top_k 0)) None compass_index) = Inr results \<and>
                length results = 3" by simp
  then have "length (projr (fst (search cosineSimilarity [Num 1, Num 0] (Some (top_k 0)) None compass_index))) = 3"
    by auto
  with u m show ?thesis by simp
qed

text \<open>
  C1, as the code has it. For every store, query, filter, scorer and positive \<open>K\<close>,
  search on the local source returns without touching the index; its result is what
  draining the queue gives, reversed, after every matching record was offered to it
  in storage order, and has \<open>min(K, number of matching records)\<close> entries. If no
  record that matches the filter is scored \<open>NaN\<close>, then: the entries are in descending
  order of score (\<^verbatim>\<open>a >= b\<close> for every earlier \<open>a\<close> and later \<open>b\<close>, so ties may come in
  any order); the matching records split into the results and those left out, and no
  record left out scores higher than a result; and at each step of the loop, a
  candidate met while the queue holds fewer than \<open>K\<close> results is inserted, and one met
  while it holds \<open>K\<close> replaces the root, which is a minimum of the queue, when its
  score is strictly greater, and is dropped otherwise.
\<close>

theorem search_topK_descending:
  "topK options = Some K \<Longrightarrow> 0 < K \<Longrightarrow> useStorage options \<noteq> Some UseIndexedDB \<Longrightarrow>
   flt = default_arg [] (filter_opt options) \<Longrightarrow>
   cands = candidates score q flt (objects s) \<Longrightarrow>
   (\<exists>results.
      search score q (Some options) indexedDB s = (Inr results, s, indexedDB) \<and>
      results = rev (drain compare_sr (fold (offer K) cands [])) \<and>
      int (length results) = min K (int (length (filter (matches flt) (objects s)))) \<and>
      ((\<forall>obj \<in> set (objects s). matches flt obj \<longrightarrow> score q (getProp obj ''embedding'') \<noteq> NaN) \<longrightarrow>
         sorted_wrt (\<lambda>a b. js_ge (similarity a) (similarity b)) results \<and>
         (\<exists>left_out. mset cands = mset results + left_out \<and>
            (\<forall>x \<in># left_out. \<forall>y \<in> set results. js_ge (similarity y) (similarity x))) \<and>
         (\<forall>n < length cands.
            (let queue = fold (offer K) (take n cands) []; c = cands ! n;
                 queue' = fold (offer K) (take (Suc n) cands) []
             in (int (length queue) < K \<longrightarrow> mset queue' = add_mset c (mset queue)) \<and>
                (\<not> int (length queue) < K \<longrightarrow>
                   (\<forall>x \<in> set queue. js_ge (similarity x) (similarity (queue ! 0))) \<and>
                   (js_gt (similarity c) (similarity (queue ! 0)) \<longrightarrow>
                      mset queue' = add_mset c (mset queue - {#queue ! 0#})) \<and>
                   (\<not> js_gt (similarity c) (similarity (queue ! 0)) \<longrightarrow> queue' = queue))))))"
proof -
  assume K: "topK options = Some K" "0 < K" and src: "useStorage options \<noteq> Some UseIndexedDB"
    and flt: "flt = default_arg [] (filter_opt options)"
    and cands: "cands = candidates score q flt (objects s)"
  let ?res = "rev (drain compare_sr (fold (offer K) cands []))"
  have k: "or_number (topK options) DEFAULT_TOP_K = K" using K by (simp add: or_number_def)
  have sl: "search_local score q K flt (objects s) = ?res" by (simp add: search_local_offer cands)
  have 1: "search score q (Some options) indexedDB s = (Inr ?res, s, indexedDB)"
    using search_local_source [OF src] k flt sl by simp
  have 2: "int (length ?res) = min K (int (length (filter (matches flt) (objects s))))"
    using K(2) length_search_local [of score q K flt "objects s"] sl by simp
  have 3: "sorted_wrt (\<lambda>a b. js_ge (similarity a) (similarity b)) ?res \<and>
         (\<exists>left_out. mset cands = mset ?res + left_out \<and>
            (\<forall>x \<in># left_out. \<forall>y \<in> set ?res. js_ge (similarity y) (similarity x))) \<and>
         (\<forall>n < length cands.
            (let queue = fold (offer K) (take n cands) []; c = cands ! n;
                 queue' = fold (offer K) (take (Suc n) cands) []
             in (int (length queue) < K \<longrightarrow> mset queue' = add_mset c (mset queue)) \<and>
                (\<not> int (length queue) < K \<longrightarrow>
                   (\<forall>x \<in> set queue. js_ge (similarity x) (similarity (queue ! 0))) \<and>
                   (js_gt (similarity c) (similarity (queue ! 0)) \<longrightarrow>
                      mset queue' = add_mset c (mset queue - {#queue ! 0#})) \<and>
                   (\<not> js_gt (similarity c) (similarity (queue ! 0)) \<longrightarrow> queue' = queue))))"
    if nan: "\<forall>obj \<in> set (objects s). matches flt obj \<longrightarrow> score q (getProp obj ''embedding'') \<noteq> NaN"
  proof -
    have cmp: "set cands \<subseteq> comparable"
      using candidates_comparable [where objs = "objects s" and flt = flt and score = score and q = q]
        nan cands by simp
    show ?thesis
      using search_local_best [OF cmp, of K] offer_step_rule [OF cmp, of _ K] K(2)
      by (simp add: Let_def)
  qed
  from 1 2 3 show ?thesis by blast
qed

theorem search_topK_descending_witness:
  "topK (top_k 2) = Some 2 \<and> useStorage (top_k 2) \<noteq> Some UseIndexedDB \<and>
   cosineSimilarity [Num 1, Num 0] (getProp v_east ''embedding'') \<noteq> NaN \<and>
   cosineSimilarity [Num 1, Num 0] (getProp v_north ''embedding'') \<noteq> NaN \<and>
   cosineSimilarity [Num 1, Num 0] (getProp v_diag ''embedding'') \<noteq> NaN \<and>
   length (projr (fst (search cosineSimilarity [Num 1, Num 0] (Some (top_k 2)) None three_index))) = 2 \<and>
   sorted_wrt (\<lambda>a b. js_ge (similarity a) (similarity b))
     (projr (fst (search cosineSimilarity [Num 1, Num 0] (Some (top_k 2)) None three_index)))"
proof -
  have t: "topK (top_k 2) = Some 2" and u: "useStorage (top_k 2) \<noteq> Some UseIndexedDB"
    and f: "[] = default_arg [] (filter_opt (top_k 2))"
    by (simp_all add: top_k_def default_arg_def)
  have n: "\<forall>obj \<in> set (objects three_index). matches [] obj \<longrightarrow>
             cosineSimilarity [Num 1, Num 0] (getProp obj ''embedding'') \<noteq> NaN"
    using scores diag_score by (simp add: three_index_def)
  from search_topK_descending [where options = "top_k 2" and K = 2 and flt = "[]"
      and s = three_index and score = cosineSimilarity and q = "[Num 1, Num 0]" and indexedDB = None,
      OF t _ u f refl] n
  obtain results where
    r: "search cosineSimilarity [Num 1, Num 0] (Some (top_k 2)) None three_index = (Inr results, three_index, None)"
    and l: "int (length results) = min 2 (int (length (filter (matches []) (objects three_index))))"
    and s: "sorted_wrt (\<lambda>a b. js_ge (similarity a) (similarity b)) results"
    by auto
  from l have "length results = 2" by (simp add: three_index_def match_all)
  with r s t u scores diag_score show ?thesis by simp
qed

text \<open>
  Where C1 as stated fails. The store holds the embeddings \<^verbatim>\<open>[0, 1]\<close>, \<^verbatim>\<open>[0, 0]\<close>,
  \<^verbatim>\<open>[1, 0]\<close> and \<^verbatim>\<open>[-1, 0]\<close>; the query is \<^verbatim>\<open>[1, 0]\<close>, \<^verbatim>\<open>topK\<close> is 4. The zero vector is
  scored \<open>NaN\<close>, which no comparison orders, and it sits in the heap between the root
  and the last record: the results come out scored \<open>NaN\<close>, 1, -1, 0, with -1 before 0.
  With a fifth record \<^verbatim>\<open>[0.6, 0.8]\<close>, scored 0.6, the queue is full when it arrives; it
  replaces the root, scored 0, and not the minimum, scored -1, so the record scored 0
  is left out of the results and the record scored -1 is kept.
\<close>

theorem search_topK_descending_counterexample:
  "constructor (Some [v_north, v_zero, v_east, v_west]) = Inr compass_index \<and>
   fst (search cosineSimilarity [Num 1, Num 0] (Some (top_k 4)) None compass_index) =
     Inr [\<lparr>similarity = NaN, object = v_zero\<rparr>, \<lparr>similarity = Num 1, object = v_east\<rparr>,
          \<lparr>similarity = Num (-1), object = v_west\<rparr>, \<lparr>similarity = Num 0, object = v_north\<rparr>] \<and>
   js_lt (Num (-1)) (Num 0) \<and>
   constructor (Some [v_north, v_zero, v_east, v_west, v_tilt]) = Inr tilt_index \<and>
   fst (search cosineSimilarity [Num 1, Num 0] (Some (top_k 4)) None tilt_index) =
     Inr [\<lparr>similarity = NaN, object = v_zero\<rparr>, \<lparr>similarity = Num 1, object = v_east\<rparr>,
          \<lparr>similarity = Num (3 / 5), object = v_tilt\<rparr>, \<lparr>similarity = Num (-1), object = v_west\<rparr>] \<and>
   cosineSimilarity [Num 1, Num 0] (getProp v_north ''embedding'') = Num 0"
  using nan_order nan_evicts constructor_compass constructor_tilt scores(1)
  by (simp add: search_def top_k_def default_arg_def or_number_def compass_index_def tilt_index_def)

end
